theory Spec2Isabelle
  imports Main "HOL-Library.AList"
begin

section \<open>The reactive engine of reactive-ai: data model\<close>

text \<open>
  The engine (class \<open>CoreReactiveEngine\<close>) and the two rate limiters of the utilities
  module (\<open>debounce\<close>, \<open>throttle\<close>) are embedded as state-passing functions on a record
  \<open>world\<close>. The record holds the six private fields of the class and the part of the
  JavaScript runtime the code relies on: a millisecond clock, the timer table behind
  \<open>setTimeout\<close>/\<open>clearTimeout\<close>, the captured variables of the closures returned by
  \<open>debounce\<close> and \<open>throttle\<close>, the continuations suspended at the \<open>await\<close> of
  \<open>processAction\<close>, and a trace of the calls made to user-supplied callbacks.

  JavaScript runs one task at a time, so every engine method, every timer callback and
  every resumed continuation is one atomic step of the model. User callbacks are functions
  of their arguments; they do not call back into the engine. Debug logging
  (\<open>this.log\<close>) writes to the console only and is left out.
\<close>

subsection \<open>Values and callbacks\<close>

text \<open>
  The watched state has the generic type \<open>T\<close>; the engine looks at it once, in the test
  \<open>!oldState\<close>. \<open>jsval\<close> has the values that test tells apart (numbers are integers
  here; objects are references and always truthy).
\<close>

datatype jsval = JNull | JUndefined | JBool bool | JNum int | JStr string | JObj nat

fun truthy :: "jsval \<Rightarrow> bool" where
  "truthy JNull = False"
| "truthy JUndefined = False"
| "truthy (JBool b) = b"
| "truthy (JNum n) = (n \<noteq> 0)"
| "truthy (JStr s) = (s \<noteq> [])"
| "truthy (JObj r) = True"

datatype error = Error string

text \<open>The provider map is passed through unchanged; a provider is known by its name.\<close>

type_synonym providers = "(string \<times> string) list"

record metadata =
  trigger_md :: string
  timestamp :: nat
  previousState_md :: jsval

record actionContext =
  state :: jsval
  providers :: providers
  metadata :: metadata

text \<open>
  What a call of a user's \<open>execute\<close> gives back when it does not throw: \<open>undefined\<close>, or
  a promise that will resolve (\<open>None\<close>) or reject (\<open>Some e\<close>) when the environment
  settles it.
\<close>

datatype retval = RVoid | RPromise "error option"

text \<open>
  A stored \<open>execute\<close> is the user's function or a closure made by \<open>debounce\<close> or
  \<open>throttle\<close> around another function; the number is the cell holding the closure's
  captured variable (\<open>timeoutId\<close>, \<open>inThrottle\<close>), the last argument the delay.
\<close>

datatype exec =
    Orig "actionContext \<Rightarrow> error + retval"
  | Debounce nat exec nat
  | Throttle nat exec nat

record reactiveAction =
  id_action :: "string option"
  trigger :: "jsval \<Rightarrow> jsval \<Rightarrow> nat \<Rightarrow> error + bool"
  execute :: exec
  preventDefault :: bool
  debounce_ms :: "nat option"
  throttle_ms :: "nat option"
  conditions :: "(actionContext \<Rightarrow> error + bool) list option"

record reactiveConfig =
  state_cfg :: jsval
  providers_cfg :: providers
  actions_cfg :: "reactiveAction list"
  onError :: "(error \<Rightarrow> actionContext \<Rightarrow> error option) option"
  debug :: bool

subsection \<open>Runtime and engine state\<close>

datatype callback =
    CallFunc exec actionContext
  | ClearThrottle nat

record pending =
  p_id :: nat
  p_action :: string
  p_old :: jsval
  p_new :: jsval
  p_timestamp :: nat
  p_fate :: "error option"

text \<open>
  The trace records the calls of user callbacks: a trigger (by action id), a stored
  \<open>execute\<close> called by \<open>processAction\<close>, the body of a user's \<open>execute\<close> being
  entered, the error callback, and an exception or rejection that escapes a timer
  callback, where nothing catches it.
\<close>

datatype event =
    TriggerCalled string
  | ExecuteCalled actionContext
  | FuncRan actionContext
  | OnErrorCalled error actionContext
  | Uncaught error

datatype pstate = PFulfilled | PRejected error | PPending

record world =
  config :: "reactiveConfig option"
  currentState :: jsval
  previousState :: jsval
  actions :: "(string \<times> reactiveAction) list"
  executingActions :: "string set"
  isDestroyed :: bool
  now :: nat
  timers :: "(nat \<times> nat \<times> callback) list"
  next_timer :: nat
  timeoutId :: "nat \<Rightarrow> nat option"
  inThrottle :: "nat \<Rightarrow> bool"
  next_cell :: nat
  awaiting :: "pending list"
  next_pending :: nat
  trace :: "event list"
  random :: "nat \<Rightarrow> string"
  draws :: nat

text \<open>
  A freshly constructed engine: \<open>config\<close>, \<open>currentState\<close> and \<open>previousState\<close> are
  \<open>null\<close>, the action map and the execution tracker are empty. \<open>rnd\<close> is the sequence
  of suffixes that \<open>Math.random().toString(36).substr(2, 9)\<close> will produce.
\<close>

definition new_engine :: "(nat \<Rightarrow> string) \<Rightarrow> world" where
  "new_engine rnd =
     \<lparr>config = None, currentState = JNull, previousState = JNull, actions = [],
      executingActions = {}, isDestroyed = False,
      now = 0, timers = [], next_timer = 0, timeoutId = (\<lambda>c. None),
      inThrottle = (\<lambda>c. False), next_cell = 0, awaiting = [], next_pending = 0,
      trace = [], random = rnd, draws = 0\<rparr>"

section \<open>Timers, debounce and throttle\<close>

text \<open>
  The runtime keeps a delay only when it lies between 1 and 2147483647 ms (the largest
  32-bit signed integer); a delay below 1 or above that bound is set to 1 ms. \<open>setTimeout\<close> appends a timer that is
  due that many milliseconds from now and returns its id. \<open>clearTimeout\<close> of
  \<open>undefined\<close> or of a timer that is gone does nothing.
\<close>

definition timer_delay :: "nat \<Rightarrow> nat" where
  "timer_delay delay = (if delay < 1 \<or> 2147483647 < delay then 1 else delay)"

definition setTimeout :: "callback \<Rightarrow> nat \<Rightarrow> world \<Rightarrow> nat \<times> world" where
  "setTimeout cb delay w =
     (next_timer w,
      w\<lparr>timers := timers w @ [(next_timer w, now w + timer_delay delay, cb)],
        next_timer := Suc (next_timer w)\<rparr>)"

definition remove_timer :: "nat \<Rightarrow> (nat \<times> nat \<times> callback) list \<Rightarrow> (nat \<times> nat \<times> callback) list" where
  "remove_timer i ts = filter (\<lambda>t. fst t \<noteq> i) ts"

definition clearTimeout :: "nat option \<Rightarrow> world \<Rightarrow> world" where
  "clearTimeout t w =
     (case t of None \<Rightarrow> w | Some i \<Rightarrow> w\<lparr>timers := remove_timer i (timers w)\<rparr>)"

text \<open>
  \<open>debounce(func, delay)\<close> and \<open>throttle(func, limit)\<close> allocate the captured variable
  (initially \<open>undefined\<close>: no timer, not throttling) and return the closure.
\<close>

definition debounce :: "exec \<Rightarrow> nat \<Rightarrow> world \<Rightarrow> exec \<times> world" where
  "debounce func delay w =
     (Debounce (next_cell w) func delay,
      w\<lparr>timeoutId := (timeoutId w)(next_cell w := None), next_cell := Suc (next_cell w)\<rparr>)"

definition throttle :: "exec \<Rightarrow> nat \<Rightarrow> world \<Rightarrow> exec \<times> world" where
  "throttle func limit w =
     (Throttle (next_cell w) func limit,
      w\<lparr>inThrottle := (inThrottle w)(next_cell w := False), next_cell := Suc (next_cell w)\<rparr>)"

text \<open>
  Calling a stored function with one argument. The user's function runs and its result
  (a throw is \<open>Inl\<close>) is handed back. The debounce closure clears its timer, starts a new
  one that will call \<open>func\<close> with these arguments, and returns \<open>undefined\<close>. The throttle
  closure, when not throttling, calls \<open>func\<close>, then sets the flag and starts the timer
  that resets it; a throw of \<open>func\<close> leaves before the flag is set; the value \<open>func\<close>
  returns is dropped.
\<close>

fun call_exec :: "exec \<Rightarrow> actionContext \<Rightarrow> world \<Rightarrow> (error + retval) \<times> world" where
  "call_exec (Orig f) ctx w = (f ctx, w\<lparr>trace := trace w @ [FuncRan ctx]\<rparr>)"
| "call_exec (Debounce c func delay) ctx w =
     (let w1 = clearTimeout (timeoutId w c) w;
          (tid, w2) = setTimeout (CallFunc func ctx) delay w1
      in (Inr RVoid, w2\<lparr>timeoutId := (timeoutId w2)(c := Some tid)\<rparr>))"
| "call_exec (Throttle c func limit) ctx w =
     (if \<not> inThrottle w c then
        (case call_exec func ctx w of
           (Inl e, w1) \<Rightarrow> (Inl e, w1)
         | (Inr r, w1) \<Rightarrow>
             (let w2 = w1\<lparr>inThrottle := (inThrottle w1)(c := True)\<rparr>;
                  (tid, w3) = setTimeout (ClearThrottle c) limit w2
              in (Inr RVoid, w3)))
      else (Inr RVoid, w))"

text \<open>
  A timer callback. An exception of \<open>func\<close>, or a rejected promise it returns, has no
  handler there; the trace records it as uncaught.
\<close>

definition run_callback :: "callback \<Rightarrow> world \<Rightarrow> world" where
  "run_callback cb w =
     (case cb of
        CallFunc func ctx \<Rightarrow>
          (case call_exec func ctx w of
             (Inl e, w1) \<Rightarrow> w1\<lparr>trace := trace w1 @ [Uncaught e]\<rparr>
           | (Inr (RPromise (Some e)), w1) \<Rightarrow> w1\<lparr>trace := trace w1 @ [Uncaught e]\<rparr>
           | (Inr r, w1) \<Rightarrow> w1)
      | ClearThrottle c \<Rightarrow> w\<lparr>inThrottle := (inThrottle w)(c := False)\<rparr>)"

text \<open>
  One millisecond passes and the timers that are due run, oldest first. A timer cleared by
  an earlier callback of the same millisecond does not run.
\<close>

fun fire :: "nat list \<Rightarrow> world \<Rightarrow> world" where
  "fire [] w = w"
| "fire (i # rest) w =
     (case find (\<lambda>t. fst t = i) (timers w) of
        None \<Rightarrow> fire rest w
      | Some t \<Rightarrow> fire rest (run_callback (snd (snd t)) (w\<lparr>timers := remove_timer i (timers w)\<rparr>)))"

definition tick :: "world \<Rightarrow> world" where
  "tick w =
     (let w1 = w\<lparr>now := Suc (now w)\<rparr>
      in fire (map fst (filter (\<lambda>t. fst (snd t) \<le> now w1) (timers w1))) w1)"

fun advance :: "nat \<Rightarrow> world \<Rightarrow> world" where
  "advance 0 w = w"
| "advance (Suc n) w = advance n (tick w)"

section \<open>The engine\<close>

subsection \<open>Registering actions\<close>

fun show_nat :: "nat \<Rightarrow> string" where
  "show_nat n =
     (if n < 10 then [''0123456789'' ! n]
      else show_nat (n div 10) @ [''0123456789'' ! (n mod 10)])"

declare show_nat.simps [simp del]

definition generateActionId :: "world \<Rightarrow> string \<times> world" where
  "generateActionId w =
     (''action_'' @ show_nat (now w) @ ''_'' @ random w (draws w),
      w\<lparr>draws := Suc (draws w)\<rparr>)"

definition wrapActionWithControls :: "reactiveAction \<Rightarrow> world \<Rightarrow> reactiveAction \<times> world" where
  "wrapActionWithControls action w =
     (let (execute1, w1) =
            (case debounce_ms action of
               Some d \<Rightarrow> if d > 0 then debounce (execute action) d w else (execute action, w)
             | None \<Rightarrow> (execute action, w));
          (execute2, w2) =
            (case throttle_ms action of
               Some l \<Rightarrow> if l > 0 then throttle execute1 l w1 else (execute1, w1)
             | None \<Rightarrow> (execute1, w1))
      in (action\<lparr>execute := execute2\<rparr>, w2))"

text \<open>\<open>action.id || this.generateActionId()\<close>: a missing or empty id is replaced.\<close>

definition choose_id :: "reactiveAction \<Rightarrow> world \<Rightarrow> string \<times> world" where
  "choose_id action w =
     (case id_action action of
        Some s \<Rightarrow> if s \<noteq> [] then (s, w) else generateActionId w
      | None \<Rightarrow> generateActionId w)"

definition addAction :: "reactiveAction \<Rightarrow> world \<Rightarrow> world" where
  "addAction action w =
     (let (actionId, w1) = choose_id action w;
          (wrappedAction, w2) = wrapActionWithControls action w1
      in w2\<lparr>actions := AList.update actionId (wrappedAction\<lparr>id_action := Some actionId\<rparr>) (actions w2)\<rparr>)"

definition removeAction :: "string \<Rightarrow> world \<Rightarrow> world" where
  "removeAction actionId w = w\<lparr>actions := AList.delete actionId (actions w)\<rparr>"

definition destroy :: "world \<Rightarrow> world" where
  "destroy w =
     w\<lparr>actions := [], executingActions := {}, config := None,
       currentState := JNull, previousState := JNull, isDestroyed := True\<rparr>"

definition configure :: "reactiveConfig \<Rightarrow> world \<Rightarrow> error + world" where
  "configure cfg w =
     (if isDestroyed w then Inl (Error ''Cannot configure destroyed reactive engine'')
      else Inr (foldl (\<lambda>w' action. addAction action w')
                  (w\<lparr>config := Some cfg, currentState := state_cfg cfg\<rparr>)
                  (actions_cfg cfg)))"

subsection \<open>Processing one action\<close>

text \<open>\<open>action.id!\<close>: every stored action has an id; a missing one reads as \<open>undefined\<close>.\<close>

definition the_id :: "reactiveAction \<Rightarrow> string" where
  "the_id action = (case id_action action of Some s \<Rightarrow> s | None \<Rightarrow> ''undefined'')"

definition mk_context :: "providers \<Rightarrow> string \<Rightarrow> jsval \<Rightarrow> jsval \<Rightarrow> nat \<Rightarrow> actionContext" where
  "mk_context ps actionId oldState newState ts =
     \<lparr>state = newState, providers = ps,
      metadata = \<lparr>trigger_md = actionId, timestamp = ts, previousState_md = oldState\<rparr>\<rparr>"

text \<open>\<open>conditions.every(condition => condition(context))\<close> stops at the first \<open>false\<close>.\<close>

fun every :: "(actionContext \<Rightarrow> error + bool) list \<Rightarrow> actionContext \<Rightarrow> error + bool" where
  "every [] ctx = Inr True"
| "every (c # cs) ctx =
     (case c ctx of Inl e \<Rightarrow> Inl e | Inr b \<Rightarrow> if b then every cs ctx else Inr False)"

definition check_conditions :: "reactiveAction \<Rightarrow> actionContext \<Rightarrow> error + bool" where
  "check_conditions action ctx =
     (case conditions action of None \<Rightarrow> Inr True | Some cs \<Rightarrow> every cs ctx)"

text \<open>
  The \<open>catch\<close> block reads \<open>this.config.onError\<close>: with \<open>config\<close> null that read throws,
  and so may the handler itself; either way the promise of \<open>processAction\<close> rejects.
  The \<open>finally\<close> block deletes the id from the tracker on every way out of the
  \<open>try\<close> block.
\<close>

definition on_catch :: "error \<Rightarrow> string \<Rightarrow> jsval \<Rightarrow> jsval \<Rightarrow> nat \<Rightarrow> world \<Rightarrow> pstate \<times> world" where
  "on_catch e actionId oldState newState ts w =
     (case config w of
        None \<Rightarrow> (PRejected (Error ''TypeError: Cannot read properties of null''), w)
      | Some cfg \<Rightarrow>
          (case onError cfg of
             None \<Rightarrow> (PFulfilled, w)
           | Some handler \<Rightarrow>
               (let context = mk_context (providers_cfg cfg) actionId oldState newState ts;
                    w1 = w\<lparr>trace := trace w @ [OnErrorCalled e context]\<rparr>
                in case handler e context of
                     None \<Rightarrow> (PFulfilled, w1)
                   | Some e' \<Rightarrow> (PRejected e', w1))))"

definition on_finally :: "string \<Rightarrow> pstate \<times> world \<Rightarrow> pstate \<times> world" where
  "on_finally actionId r =
     (fst r, (snd r)\<lparr>executingActions := executingActions (snd r) - {actionId}\<rparr>)"

definition processAction ::
  "reactiveAction \<Rightarrow> jsval \<Rightarrow> jsval \<Rightarrow> nat \<Rightarrow> world \<Rightarrow> pstate \<times> world" where
  "processAction action oldState newState ts w =
     (case config w of
        None \<Rightarrow> (PFulfilled, w)
      | Some cfg \<Rightarrow>
          if \<not> truthy oldState then (PFulfilled, w)
          else
            (let actionId = the_id action;
                 w0 = w\<lparr>trace := trace w @ [TriggerCalled actionId]\<rparr>
             in case trigger action oldState newState ts of
                  Inl e \<Rightarrow> on_finally actionId (on_catch e actionId oldState newState ts w0)
                | Inr shouldTrigger \<Rightarrow>
                    if \<not> shouldTrigger then on_finally actionId (PFulfilled, w0)
                    else
                      (let context = mk_context (providers_cfg cfg) actionId oldState newState ts
                       in case check_conditions action context of
                            Inl e \<Rightarrow> on_finally actionId (on_catch e actionId oldState newState ts w0)
                          | Inr ok \<Rightarrow>
                              if \<not> ok then on_finally actionId (PFulfilled, w0)
                              else if preventDefault action \<and> actionId \<in> executingActions w0
                              then on_finally actionId (PFulfilled, w0)
                              else
                                (let w1 = w0\<lparr>executingActions := insert actionId (executingActions w0),
                                             trace := trace w0 @ [ExecuteCalled context]\<rparr>
                                 in case call_exec (execute action) context w1 of
                                      (Inl e, w2) \<Rightarrow>
                                        on_finally actionId (on_catch e actionId oldState newState ts w2)
                                    | (Inr r, w2) \<Rightarrow>
                                        (PPending,
                                         w2\<lparr>awaiting := awaiting w2 @
                                               [\<lparr>p_id = next_pending w2, p_action = actionId,
                                                 p_old = oldState, p_new = newState, p_timestamp = ts,
                                                 p_fate = (case r of RVoid \<Rightarrow> None | RPromise f \<Rightarrow> f)\<rparr>],
                                            next_pending := Suc (next_pending w2)\<rparr>)))))"

text \<open>
  The awaited value settles and the rest of \<open>processAction\<close> runs: on a rejection the
  \<open>catch\<close> block, then in both cases the \<open>finally\<close> block.
\<close>

definition resume :: "pending \<Rightarrow> world \<Rightarrow> pstate \<times> world" where
  "resume p w =
     on_finally (p_action p)
       (case p_fate p of
          None \<Rightarrow> (PFulfilled, w)
        | Some e \<Rightarrow> on_catch e (p_action p) (p_old p) (p_new p) (p_timestamp p) w)"

definition settle :: "nat \<Rightarrow> world \<Rightarrow> world" where
  "settle pid w =
     (case find (\<lambda>p. p_id p = pid) (awaiting w) of
        None \<Rightarrow> w
      | Some p \<Rightarrow> snd (resume p (w\<lparr>awaiting := filter (\<lambda>q. p_id q \<noteq> pid) (awaiting w)\<rparr>)))"

subsection \<open>State updates\<close>

fun process_all ::
  "reactiveAction list \<Rightarrow> jsval \<Rightarrow> jsval \<Rightarrow> nat \<Rightarrow> world \<Rightarrow> pstate list \<times> world" where
  "process_all [] oldState newState ts w = ([], w)"
| "process_all (a # as) oldState newState ts w =
     (let (p, w1) = processAction a oldState newState ts w;
          (ps, w2) = process_all as oldState newState ts w1
      in (p # ps, w2))"

text \<open>\<open>Promise.allSettled\<close> waits for every promise and fulfils whatever they did.\<close>

definition allSettled :: "pstate list \<Rightarrow> pstate" where
  "allSettled ps = (if PPending \<in> set ps then PPending else PFulfilled)"

definition updateState :: "jsval \<Rightarrow> world \<Rightarrow> pstate \<times> world" where
  "updateState newState w =
     (if isDestroyed w \<or> config w = None then (PFulfilled, w)
      else
        (let oldState = currentState w;
             w1 = w\<lparr>previousState := oldState, currentState := newState\<rparr>;
             ts = now w1;
             (ps, w2) = process_all (map snd (actions w1)) oldState newState ts w1
         in (allSettled ps, w2)))"

subsection \<open>Runs\<close>

text \<open>
  What can happen to an engine: a call of one of its five methods, the settling of an
  awaited \<open>execute\<close>, a millisecond passing. A \<open>configure\<close> that throws changes nothing.
\<close>

datatype op =
    Configure reactiveConfig
  | UpdateState jsval
  | AddAction reactiveAction
  | RemoveAction string
  | Destroy
  | Settle nat
  | Tick

fun step :: "op \<Rightarrow> world \<Rightarrow> world" where
  "step (Configure cfg) w = (case configure cfg w of Inl e \<Rightarrow> w | Inr w' \<Rightarrow> w')"
| "step (UpdateState v) w = snd (updateState v w)"
| "step (AddAction a) w = addAction a w"
| "step (RemoveAction k) w = removeAction k w"
| "step Destroy w = destroy w"
| "step (Settle pid) w = settle pid w"
| "step Tick w = tick w"

fun run :: "op list \<Rightarrow> world \<Rightarrow> world" where
  "run [] w = w"
| "run (x # xs) w = run xs (step x w)"

text \<open>The arguments with which user \<open>execute\<close> bodies ran, and the reported errors.\<close>

fun executed :: "event list \<Rightarrow> actionContext list" where
  "executed [] = []"
| "executed (FuncRan ctx # es) = ctx # executed es"
| "executed (e # es) = executed es"

fun reported :: "event list \<Rightarrow> (error \<times> actionContext) list" where
  "reported [] = []"
| "reported (OnErrorCalled e ctx # es) = (e, ctx) # reported es"
| "reported (e # es) = reported es"

section \<open>Scenarios and reference definitions\<close>

text \<open>The log of a user \<open>execute\<close> that appends the current state it is given.\<close>

definition log :: "world \<Rightarrow> jsval list" where
  "log w = map state (executed (trace w))"

text \<open>No action of the scenarios below lacks an id, so no random suffix is drawn.\<close>

definition no_random :: "nat \<Rightarrow> string" where
  "no_random n = []"

text \<open>\<open>(p, c) => p !== c\<close>, and a trigger that always fires.\<close>

definition changed :: "jsval \<Rightarrow> jsval \<Rightarrow> nat \<Rightarrow> error + bool" where
  "changed p c ts = Inr (p \<noteq> c)"

definition always :: "jsval \<Rightarrow> jsval \<Rightarrow> nat \<Rightarrow> error + bool" where
  "always p c ts = Inr True"

text \<open>User functions: one that returns at once, one that returns a promise which resolves.\<close>

definition returns_void :: "actionContext \<Rightarrow> error + retval" where
  "returns_void ctx = Inr RVoid"

definition returns_promise :: "actionContext \<Rightarrow> error + retval" where
  "returns_promise ctx = Inr (RPromise None)"

definition plain_action ::
  "string \<Rightarrow> (jsval \<Rightarrow> jsval \<Rightarrow> nat \<Rightarrow> error + bool) \<Rightarrow> (actionContext \<Rightarrow> error + retval) \<Rightarrow> bool \<Rightarrow> reactiveAction" where
  "plain_action k trig f guard =
     \<lparr>id_action = Some k, trigger = trig, execute = Orig f, preventDefault = guard,
      debounce_ms = None, throttle_ms = None, conditions = None\<rparr>"

definition plain_config :: "jsval \<Rightarrow> reactiveAction list \<Rightarrow> reactiveConfig" where
  "plain_config s as =
     \<lparr>state_cfg = s, providers_cfg = [], actions_cfg = as, onError = None, debug = False\<rparr>"




definition first_config :: reactiveConfig where
  "first_config = plain_config (JNum 1) []"

definition second_config :: reactiveConfig where
  "second_config = plain_config (JNum 5) []"



text \<open>
  Scripts for one closure among others. A script waits, invokes the closure under study,
  or calls some other stored function; \<open>play\<close> runs it.
\<close>

datatype act = Wait nat | Invoke actionContext | Other exec actionContext

fun play :: "exec \<Rightarrow> act list \<Rightarrow> world \<Rightarrow> world" where
  "play D [] w = w"
| "play D (Wait n # s) w = play D s (advance n w)"
| "play D (Invoke x # s) w = play D s (snd (call_exec D x w))"
| "play D (Other g y # s) w = play D s (snd (call_exec g y w))"

text \<open>
  The engine puts the id of the action into every context it builds, so the runs of one
  action's function are the executed contexts that carry its id.
\<close>

definition runs_of :: "string \<Rightarrow> world \<Rightarrow> actionContext list" where
  "runs_of k w = filter (\<lambda>x. trigger_md (metadata x) = k) (executed (trace w))"

text \<open>
  Debounce as the specification words it, on a script: an invocation (re)starts a pending
  timer of \<open>delay\<close> ms holding its arguments; the function runs with the held arguments
  once \<open>delay\<close> ms pass without an invocation. The state is what is pending: the
  milliseconds left and the arguments. The result lists the arguments of the runs.
\<close>

fun debounce_spec :: "nat \<Rightarrow> act list \<Rightarrow> (nat \<times> actionContext) option \<Rightarrow> actionContext list" where
  "debounce_spec delay [] p = []"
| "debounce_spec delay (Wait n # s) None = debounce_spec delay s None"
| "debounce_spec delay (Wait n # s) (Some (r, x)) =
     (if r \<le> n then x # debounce_spec delay s None else debounce_spec delay s (Some (r - n, x)))"
| "debounce_spec delay (Invoke x # s) p = debounce_spec delay s (Some (delay, x))"
| "debounce_spec delay (Other g y # s) p = debounce_spec delay s p"

text \<open>
  Throttle likewise: outside a cooldown an invocation runs the function at once and, when
  the function returns without throwing, starts a cooldown of \<open>limit\<close> ms; during the
  cooldown invocations are dropped. The state is the milliseconds of cooldown left.
\<close>

fun throttle_spec ::
  "nat \<Rightarrow> (actionContext \<Rightarrow> error + retval) \<Rightarrow> act list \<Rightarrow> nat option \<Rightarrow> actionContext list" where
  "throttle_spec limit f [] p = []"
| "throttle_spec limit f (Wait n # s) None = throttle_spec limit f s None"
| "throttle_spec limit f (Wait n # s) (Some r) =
     (if r \<le> n then throttle_spec limit f s None else throttle_spec limit f s (Some (r - n)))"
| "throttle_spec limit f (Invoke x # s) None =
     x # throttle_spec limit f s (if isl (f x) then None else Some limit)"
| "throttle_spec limit f (Invoke x # s) (Some r) = throttle_spec limit f s (Some r)"
| "throttle_spec limit f (Other g y # s) p = throttle_spec limit f s p"

text \<open>
  What is foreign to a closure. A stored function touches the closure when it contains a
  debounce closure on the same \<open>timeoutId\<close> cell (\<open>dc\<close>) or a throttle closure on the
  same \<open>inThrottle\<close> cell (\<open>tc\<close>). A timer callback is foreign when it calls a function
  that does not touch the closure, with the context of another action, or resets another
  throttle flag. A script step is admissible when it waits, invokes the closure with a
  context of its own action \<open>k\<close>, or calls a foreign function for another action.
\<close>

fun touches :: "nat option \<Rightarrow> nat option \<Rightarrow> exec \<Rightarrow> bool" where
  "touches dc tc (Orig h) = False"
| "touches dc tc (Debounce c g d) = (dc = Some c \<or> touches dc tc g)"
| "touches dc tc (Throttle c g l) = (tc = Some c \<or> touches dc tc g)"

fun foreign_cb :: "string \<Rightarrow> nat option \<Rightarrow> nat option \<Rightarrow> callback \<Rightarrow> bool" where
  "foreign_cb k dc tc (CallFunc g y) = (\<not> touches dc tc g \<and> trigger_md (metadata y) \<noteq> k)"
| "foreign_cb k dc tc (ClearThrottle c) = (tc \<noteq> Some c)"

fun act_ok :: "string \<Rightarrow> nat option \<Rightarrow> nat option \<Rightarrow> act \<Rightarrow> bool" where
  "act_ok k dc tc (Wait n) = True"
| "act_ok k dc tc (Invoke x) = (trigger_md (metadata x) = k)"
| "act_ok k dc tc (Other g y) = (\<not> touches dc tc g \<and> trigger_md (metadata y) \<noteq> k)"

text \<open>
  The timer table as \<open>setTimeout\<close> keeps it: ids are handed out in increasing order, so
  the pending timers have different ids below the next id, and so has every id a debounce
  closure remembers.
\<close>

definition ids_ok :: "world \<Rightarrow> bool" where
  "ids_ok w =
     (distinct (map fst (timers w)) \<and>
      (\<forall>t \<in> set (timers w). fst t < next_timer w) \<and>
      (\<forall>c i. timeoutId w c = Some i \<longrightarrow> i < next_timer w))"

text \<open>
  A world in which the closure is apart from the rest: every pending timer is one of the
  closure's own (ids \<open>T\<close>) or foreign, and no other debounce closure remembers an id of
  \<open>T\<close>. \<open>undisturbed\<close> says what a foreign step leaves as it was.
\<close>

definition apart :: "string \<Rightarrow> nat option \<Rightarrow> nat option \<Rightarrow> nat set \<Rightarrow> world \<Rightarrow> bool" where
  "apart k dc tc T w =
     (ids_ok w \<and>
      (\<forall>i \<in> T. i < next_timer w) \<and>
      (\<forall>t \<in> set (timers w). fst t \<in> T \<or> foreign_cb k dc tc (snd (snd t))) \<and>
      (\<forall>c i. dc \<noteq> Some c \<longrightarrow> i \<in> T \<longrightarrow> timeoutId w c \<noteq> Some i))"

definition undisturbed ::
  "string \<Rightarrow> nat option \<Rightarrow> nat option \<Rightarrow> nat set \<Rightarrow> world \<Rightarrow> world \<Rightarrow> bool" where
  "undisturbed k dc tc T w w' =
     (apart k dc tc T w' \<and>
      runs_of k w' = runs_of k w \<and>
      (\<forall>t. fst t \<in> T \<longrightarrow> (t \<in> set (timers w')) = (t \<in> set (timers w))) \<and>
      (\<forall>c. dc = Some c \<longrightarrow> timeoutId w' c = timeoutId w c) \<and>
      (\<forall>c. tc = Some c \<longrightarrow> inThrottle w' c = inThrottle w c))"

text \<open>Contexts of two actions \<open>a\<close> and \<open>b\<close>, numbered.\<close>

definition ctx_a :: "int \<Rightarrow> actionContext" where
  "ctx_a n = mk_context [] ''a'' JNull (JNum n) 0"

definition ctx_b :: "int \<Rightarrow> actionContext" where
  "ctx_b n = mk_context [] ''b'' JNull (JNum n) 0"

text \<open>
  What a debounce closure on cell \<open>c\<close> around \<open>f\<close> is waiting for, tied to the world:
  nothing, or \<open>r\<close> more milliseconds with held arguments \<open>x\<close>, its cell then
  remembering the one pending timer that will call \<open>f\<close> with \<open>x\<close>. Likewise for a
  throttle closure: not cooling down, or \<open>r\<close> more milliseconds of cooldown, its flag set
  and one pending timer that will reset it.
\<close>

definition deb_state ::
  "string \<Rightarrow> nat \<Rightarrow> (actionContext \<Rightarrow> error + retval) \<Rightarrow> (nat \<times> actionContext) option \<Rightarrow> world \<Rightarrow> bool" where
  "deb_state k c f p w =
     (case p of
        None \<Rightarrow> apart k (Some c) None {} w
      | Some rx \<Rightarrow>
          1 \<le> fst rx \<and> trigger_md (metadata (snd rx)) = k \<and>
          (\<exists>tid. apart k (Some c) None {tid} w \<and> timeoutId w c = Some tid \<and>
                 (tid, now w + fst rx, CallFunc (Orig f) (snd rx)) \<in> set (timers w)))"

definition thr_state :: "string \<Rightarrow> nat \<Rightarrow> nat option \<Rightarrow> world \<Rightarrow> bool" where
  "thr_state k c p w =
     (case p of
        None \<Rightarrow> \<not> inThrottle w c \<and> apart k None (Some c) {} w
      | Some r \<Rightarrow>
          1 \<le> r \<and> inThrottle w c \<and>
          (\<exists>tid. apart k None (Some c) {tid} w \<and> (tid, now w + r, ClearThrottle c) \<in> set (timers w)))"

text \<open>
  Two debounce closures, and two throttle closures, made one after the other on a new
  engine, and a script of five invocations within 50 ms for action \<open>a\<close>, between them
  calls of another closure for action \<open>b\<close>.
\<close>

definition deb_a :: exec where
  "deb_a = fst (debounce (Orig returns_void) 100 (new_engine no_random))"

definition deb_b :: exec where
  "deb_b = fst (debounce (Orig returns_void) 100 (snd (debounce (Orig returns_void) 100 (new_engine no_random))))"

definition two_debounced :: world where
  "two_debounced = snd (debounce (Orig returns_void) 100 (snd (debounce (Orig returns_void) 100 (new_engine no_random))))"

definition five_in_50ms :: "exec \<Rightarrow> act list" where
  "five_in_50ms other =
     [Other other (ctx_b 1), Invoke (ctx_a 1), Wait 10, Invoke (ctx_a 2), Wait 10, Invoke (ctx_a 3),
      Other other (ctx_b 2), Wait 10, Invoke (ctx_a 4), Wait 10, Invoke (ctx_a 5)]"

definition thr_a :: exec where
  "thr_a = fst (throttle (Orig returns_void) 100 (new_engine no_random))"

definition thr_b :: exec where
  "thr_b = fst (throttle (Orig returns_void) 100 (snd (throttle (Orig returns_void) 100 (new_engine no_random))))"

definition two_throttled :: world where
  "two_throttled = snd (throttle (Orig returns_void) 100 (snd (throttle (Orig returns_void) 100 (new_engine no_random))))"

definition throws :: "actionContext \<Rightarrow> error + retval" where
  "throws ctx = Inl (Error ''boom'')"

text \<open>Two actions for one update: the first throws from \<open>execute\<close>, the second logs.\<close>

definition two_actions :: reactiveConfig where
  "two_actions =
     plain_config (JNum 1) [plain_action ''a'' always throws False, plain_action ''b'' always returns_void False]"

text \<open>The events a step added to the trace.\<close>

definition new_events :: "world \<Rightarrow> world \<Rightarrow> event list" where
  "new_events w w' = drop (length (trace w)) (trace w')"

text \<open>
  The action map as \<open>addAction\<close> builds it: one entry per key, and every stored action
  carries its key as id.
\<close>

definition wf_actions :: "world \<Rightarrow> bool" where
  "wf_actions w =
     (distinct (map fst (actions w)) \<and>
      (\<forall>ka \<in> set (actions w). id_action (snd ka) = Some (fst ka)))"

text \<open>
  Counting failures. An execution fails when the user's function throws or returns a
  promise that rejects. An (action, update) pair fails when the trigger or a condition
  throws, or when they pass, the re-entry guard lets the action through and the execution
  fails. \<open>failures\<close> adds up the failing pairs of the updates of a run; \<open>rejecting\<close>
  counts the pending executions whose promise will reject.
\<close>

fun user_fails :: "exec \<Rightarrow> actionContext \<Rightarrow> bool" where
  "user_fails (Orig f) ctx =
     (case f ctx of Inl e \<Rightarrow> True | Inr RVoid \<Rightarrow> False | Inr (RPromise fate) \<Rightarrow> fate \<noteq> None)"
| "user_fails (Debounce c g d) ctx = user_fails g ctx"
| "user_fails (Throttle c g l) ctx = user_fails g ctx"

definition fails :: "providers \<Rightarrow> string set \<Rightarrow> jsval \<Rightarrow> jsval \<Rightarrow> nat \<Rightarrow> reactiveAction \<Rightarrow> bool" where
  "fails ps tracker old new ts a =
     (truthy old \<and>
      (case trigger a old new ts of
         Inl e \<Rightarrow> True
       | Inr b \<Rightarrow>
           b \<and>
           (case check_conditions a (mk_context ps (the_id a) old new ts) of
              Inl e \<Rightarrow> True
            | Inr ok \<Rightarrow>
                ok \<and> \<not> (preventDefault a \<and> the_id a \<in> tracker) \<and>
                user_fails (execute a) (mk_context ps (the_id a) old new ts))))"

fun failures :: "op list \<Rightarrow> world \<Rightarrow> nat" where
  "failures [] w = 0"
| "failures (UpdateState v # xs) w =
     (case config w of
        None \<Rightarrow> 0
      | Some cfg \<Rightarrow>
          if isDestroyed w then 0
          else length (filter (fails (providers_cfg cfg) (executingActions w) (currentState w) v (now w))
                 (map snd (actions w)))) +
     failures xs (step (UpdateState v) w)"
| "failures (x # xs) w = failures xs (step x w)"

definition rejecting :: "world \<Rightarrow> nat" where
  "rejecting w = length (filter (\<lambda>p. p_fate p \<noteq> None) (awaiting w))"

text \<open>Updates, settlements and the passing of time: what happens to an engine left alone.\<close>

fun env_op :: "op \<Rightarrow> bool" where
  "env_op (UpdateState v) = True"
| "env_op (Settle pid) = True"
| "env_op Tick = True"
| "env_op x = False"

fun plain :: "exec \<Rightarrow> bool" where
  "plain (Orig f) = True"
| "plain g = False"

text \<open>
  The ids of the suspended continuations are all different and below the next id, as
  \<open>processAction\<close> hands them out.
\<close>

definition pend_inv :: "world \<Rightarrow> bool" where
  "pend_inv w =
     (distinct (map p_id (awaiting w)) \<and> (\<forall>p \<in> set (awaiting w). p_id p < next_pending w))"

text \<open>
  An engine configured with an error callback, whose stored actions are neither debounced
  nor throttled.
\<close>

definition reporting :: "world \<Rightarrow> bool" where
  "reporting w =
     ((case config w of None \<Rightarrow> False | Some cfg \<Rightarrow> onError cfg \<noteq> None) \<and>
      wf_actions w \<and>
      (\<forall>ka \<in> set (actions w). plain (execute (snd ka))) \<and>
      pend_inv w)"

text \<open>Scenarios with an error callback that returns normally.\<close>

definition ignore_error :: "error \<Rightarrow> actionContext \<Rightarrow> error option" where
  "ignore_error e ctx = None"

definition reporting_config :: "jsval \<Rightarrow> reactiveAction list \<Rightarrow> reactiveConfig" where
  "reporting_config s as =
     \<lparr>state_cfg = s, providers_cfg = [], actions_cfg = as, onError = Some ignore_error, debug = False\<rparr>"

definition trigger_throws :: "jsval \<Rightarrow> jsval \<Rightarrow> nat \<Rightarrow> error + bool" where
  "trigger_throws p c ts = Inl (Error ''bad trigger'')"

definition rejects :: "actionContext \<Rightarrow> error + retval" where
  "rejects ctx = Inr (RPromise (Some (Error ''rejected'')))"

definition debounced_action :: reactiveAction where
  "debounced_action =
     \<lparr>id_action = Some ''d'', trigger = always, execute = Orig throws,
      preventDefault = False, debounce_ms = Some 3, throttle_ms = None, conditions = None\<rparr>"

definition four_actions :: reactiveConfig where
  "four_actions =
     reporting_config (JNum 1)
       [plain_action ''a'' always throws False, plain_action ''b'' always rejects False,
        plain_action ''c'' trigger_throws returns_void False, plain_action ''ok'' always returns_void False]"

text \<open>
  An engine that has processed an update with one action, and a configuration with a
  provider, an error callback and two actions, one plain and one debounced.
\<close>

definition acting_config :: reactiveConfig where
  "acting_config = plain_config (JNum 1) [plain_action ''a'' always returns_void False]"

definition updated_engine :: world where
  "updated_engine = run [Configure acting_config, UpdateState (JNum 2)] (new_engine no_random)"

definition full_config :: reactiveConfig where
  "full_config =
     \<lparr>state_cfg = JNum 5, providers_cfg = [(''openai'', ''key'')],
      actions_cfg = [plain_action ''b'' changed returns_void True, debounced_action],
      onError = Some ignore_error, debug = True\<rparr>"

section \<open>Properties\<close>

lemmas eng =
  configure_def addAction_def choose_id_def wrapActionWithControls_def updateState_def
  processAction_def the_id_def check_conditions_def mk_context_def on_finally_def on_catch_def
  allSettled_def Let_def split_def debounce_def throttle_def setTimeout_def clearTimeout_def
  timer_delay_def
  remove_timer_def run_callback_def tick_def settle_def resume_def destroy_def removeAction_def
  generateActionId_def

lemmas scenario =
  log_def no_random_def changed_def always_def returns_void_def returns_promise_def
  plain_action_def plain_config_def new_engine_def throws_def ignore_error_def
  reporting_config_def trigger_throws_def rejects_def

subsection \<open>What timers and callbacks leave alone\<close>

text \<open>
  Calling a stored function, running a timer callback and letting time pass touch the
  runtime part of the world only: the fields of the engine stay as they are.
\<close>

lemma call_exec_frame:
  "config (snd (call_exec f ctx w)) = config w \<and>
   isDestroyed (snd (call_exec f ctx w)) = isDestroyed w \<and>
   actions (snd (call_exec f ctx w)) = actions w \<and>
   executingActions (snd (call_exec f ctx w)) = executingActions w \<and>
   awaiting (snd (call_exec f ctx w)) = awaiting w \<and>
   next_pending (snd (call_exec f ctx w)) = next_pending w \<and>
   currentState (snd (call_exec f ctx w)) = currentState w \<and>
   previousState (snd (call_exec f ctx w)) = previousState w"
proof (induction f arbitrary: ctx w)
  case (Orig g)
  show ?case by simp
next
  case (Debounce c f d)
  show ?case by (simp add: clearTimeout_def setTimeout_def split_def Let_def split: option.splits)
next
  case (Throttle c f l)
  show ?case using Throttle.IH [of ctx w]
    by (cases "call_exec f ctx w"; cases "fst (call_exec f ctx w)")
       (auto simp: setTimeout_def split_def Let_def)
qed

lemma run_callback_frame:
  "config (run_callback cb w) = config w \<and>
   isDestroyed (run_callback cb w) = isDestroyed w \<and>
   actions (run_callback cb w) = actions w \<and>
   executingActions (run_callback cb w) = executingActions w \<and>
   awaiting (run_callback cb w) = awaiting w \<and>
   next_pending (run_callback cb w) = next_pending w \<and>
   currentState (run_callback cb w) = currentState w \<and>
   previousState (run_callback cb w) = previousState w"
proof (cases cb)
  case (CallFunc f ctx)
  show ?thesis using call_exec_frame [of f ctx w]
    by (cases "call_exec f ctx w")
       (auto simp: run_callback_def CallFunc split: sum.splits retval.splits option.splits)
next
  case (ClearThrottle c)
  then show ?thesis by (simp add: run_callback_def)
qed

lemma fire_frame:
  "config (fire is w) = config w \<and>
   isDestroyed (fire is w) = isDestroyed w \<and>
   actions (fire is w) = actions w \<and>
   executingActions (fire is w) = executingActions w \<and>
   awaiting (fire is w) = awaiting w \<and>
   next_pending (fire is w) = next_pending w \<and>
   currentState (fire is w) = currentState w \<and>
   previousState (fire is w) = previousState w"
proof (induction "is" arbitrary: w)
  case Nil
  show ?case by simp
next
  case (Cons i rest)
  show ?case
  proof (cases "find (\<lambda>t. fst t = i) (timers w)")
    case None
    then show ?thesis using Cons.IH [of w] by simp
  next
    case (Some t)
    then show ?thesis
      using Cons.IH [of "run_callback (snd (snd t)) (w\<lparr>timers := remove_timer i (timers w)\<rparr>)"]
            run_callback_frame [of "snd (snd t)" "w\<lparr>timers := remove_timer i (timers w)\<rparr>"]
      by simp
  qed
qed

lemma tick_frame:
  "config (tick w) = config w \<and>
   isDestroyed (tick w) = isDestroyed w \<and>
   actions (tick w) = actions w \<and>
   executingActions (tick w) = executingActions w \<and>
   awaiting (tick w) = awaiting w \<and>
   next_pending (tick w) = next_pending w \<and>
   currentState (tick w) = currentState w \<and>
   previousState (tick w) = previousState w"
  using fire_frame [of _ "w\<lparr>now := Suc (now w)\<rparr>"] by (simp add: tick_def Let_def)

lemma on_catch_frame:
  "config (snd (on_catch e k old new ts w)) = config w \<and>
   isDestroyed (snd (on_catch e k old new ts w)) = isDestroyed w \<and>
   actions (snd (on_catch e k old new ts w)) = actions w \<and>
   executingActions (snd (on_catch e k old new ts w)) = executingActions w \<and>
   awaiting (snd (on_catch e k old new ts w)) = awaiting w \<and>
   next_pending (snd (on_catch e k old new ts w)) = next_pending w \<and>
   currentState (snd (on_catch e k old new ts w)) = currentState w \<and>
   previousState (snd (on_catch e k old new ts w)) = previousState w"
  by (simp add: on_catch_def Let_def split: option.splits)

lemma settle_isDestroyed: "isDestroyed (settle pid w) = isDestroyed w"
  using on_catch_frame by (simp add: settle_def resume_def on_finally_def split: option.splits)

lemma addAction_isDestroyed: "isDestroyed (addAction a w) = isDestroyed w"
  by (simp add: addAction_def choose_id_def wrapActionWithControls_def generateActionId_def
      debounce_def throttle_def Let_def split_def split: option.splits)

lemma updateState_destroyed: "isDestroyed w \<Longrightarrow> updateState v w = (PFulfilled, w)"
  by (simp add: updateState_def)

lemma step_isDestroyed: "isDestroyed w \<Longrightarrow> isDestroyed (step x w)"
  by (cases x)
     (simp_all add: configure_def updateState_destroyed addAction_isDestroyed removeAction_def
        destroy_def settle_isDestroyed tick_frame)

lemma run_isDestroyed: "isDestroyed w \<Longrightarrow> isDestroyed (run xs w)"
  by (induction xs arbitrary: w) (simp_all add: step_isDestroyed)

subsection \<open>After destroy\<close>

text \<open>
  C5. Once \<open>destroy()\<close> has been called, whatever happens afterwards (\<open>xs\<close>: any calls
  of engine methods, settlements and timer ticks), \<open>configure\<close> throws the error
  "Cannot configure destroyed reactive engine" and \<open>updateState\<close> returns normally
  without changing anything: no field of the engine, no timer, no entry of the trace, so no
  \<open>execute\<close> is invoked.
\<close>

theorem destroyed_engine_refuses_configure_and_ignores_updateState:
  "configure cfg (run xs (destroy w)) = Inl (Error ''Cannot configure destroyed reactive engine'') \<and>
   updateState v (run xs (destroy w)) = (PFulfilled, run xs (destroy w))"
proof -
  have "isDestroyed (destroy w)" by (simp add: destroy_def)
  then have "isDestroyed (run xs (destroy w))" by (rule run_isDestroyed)
  then show ?thesis by (simp add: configure_def updateState_destroyed)
qed

subsection \<open>Single in-flight execution\<close>

text \<open>
  C1, evaluated at a run that breaks it. One action \<open>a\<close> with \<open>preventDefault = true\<close>, a
  trigger that always fires and an \<open>execute\<close> whose promise is never settled during the
  run; the engine is configured with state 1 and receives three updates. After the first
  update the id is in the tracker and one execution is pending. The second update is
  skipped by the guard, and on its way out the \<open>finally\<close> block deletes the id although the
  first execution is still pending. The third update therefore invokes \<open>execute\<close> again:
  two executions of \<open>a\<close> are pending at once.
\<close>

theorem guard_released_by_skipped_update:
  "executingActions (run [Configure (plain_config (JNum 1) [plain_action ''a'' always returns_promise True]),
        UpdateState (JNum 2)] (new_engine no_random)) = {''a''} \<and>
   map p_action (awaiting (run [Configure (plain_config (JNum 1) [plain_action ''a'' always returns_promise True]),
        UpdateState (JNum 2), UpdateState (JNum 3)] (new_engine no_random))) = [''a''] \<and>
   executingActions (run [Configure (plain_config (JNum 1) [plain_action ''a'' always returns_promise True]),
        UpdateState (JNum 2), UpdateState (JNum 3)] (new_engine no_random)) = {} \<and>
   map p_action (awaiting (run [Configure (plain_config (JNum 1) [plain_action ''a'' always returns_promise True]),
        UpdateState (JNum 2), UpdateState (JNum 3), UpdateState (JNum 4)] (new_engine no_random))) = [''a'', ''a''] \<and>
   log (run [Configure (plain_config (JNum 1) [plain_action ''a'' always returns_promise True]),
        UpdateState (JNum 2), UpdateState (JNum 3), UpdateState (JNum 4)] (new_engine no_random)) = [JNum 2, JNum 4]"
  by (simp add: scenario eng)

subsection \<open>The logging scenario\<close>

text \<open>
  C3 as stated, evaluated: initial state 0, one action with trigger \<open>(p, c) => p !== c\<close>
  whose \<open>execute\<close> logs the current state. The log is empty after \<open>updateState(1)\<close>
  (the old state 0 is falsy, so \<open>processAction\<close> returns at \<open>!oldState\<close>) and still empty
  after the second \<open>updateState(1)\<close> (the trigger compares 1 with 1).
\<close>

theorem scenario_log_counterexample:
  "log (run [Configure (plain_config (JNum 0) [plain_action ''log'' changed returns_void False]),
        UpdateState (JNum 1)] (new_engine no_random)) = [] \<and>
   log (run [Configure (plain_config (JNum 0) [plain_action ''log'' changed returns_void False]),
        UpdateState (JNum 1), UpdateState (JNum 1)] (new_engine no_random)) = []"
  by (simp add: scenario eng)

text \<open>
  C3, amended. With a truthy initial state other than 1, \<open>updateState(1)\<close> gives the log
  \<open>[1]\<close>; the second \<open>updateState(1)\<close> leaves it at \<open>[1]\<close>, because the trigger
  \<open>p !== c\<close> is false on equal states. The engine itself removes no duplicates: with a
  trigger that always fires the same two updates give \<open>[1, 1]\<close>.
\<close>

theorem scenario_log_truthy_start:
  assumes "truthy s0" and "s0 \<noteq> JNum 1"
  shows "log (run [Configure (plain_config s0 [plain_action ''log'' changed returns_void False]),
            UpdateState (JNum 1)] (new_engine rnd)) = [JNum 1] \<and>
         log (run [Configure (plain_config s0 [plain_action ''log'' changed returns_void False]),
            UpdateState (JNum 1), UpdateState (JNum 1)] (new_engine rnd)) = [JNum 1] \<and>
         log (run [Configure (plain_config s0 [plain_action ''log'' always returns_void False]),
            UpdateState (JNum 1), UpdateState (JNum 1)] (new_engine rnd)) = [JNum 1, JNum 1]"
  using assms by (simp add: scenario eng)

theorem scenario_log_truthy_start_witness:
  "truthy (JNum 5) \<and> JNum 5 \<noteq> JNum 1 \<and>
   log (run [Configure (plain_config (JNum 5) [plain_action ''log'' changed returns_void False]),
            UpdateState (JNum 1)] (new_engine no_random)) = [JNum 1] \<and>
   log (run [Configure (plain_config (JNum 5) [plain_action ''log'' changed returns_void False]),
            UpdateState (JNum 1), UpdateState (JNum 1)] (new_engine no_random)) = [JNum 1] \<and>
   log (run [Configure (plain_config (JNum 5) [plain_action ''log'' always returns_void False]),
            UpdateState (JNum 1), UpdateState (JNum 1)] (new_engine no_random)) = [JNum 1, JNum 1]"
  using scenario_log_truthy_start [of "JNum 5" no_random] by simp

subsection \<open>Adding and removing actions\<close>

lemma addAction_actions:
  "actions (addAction a w) =
     AList.update (fst (choose_id a w))
       ((fst (wrapActionWithControls a (snd (choose_id a w))))\<lparr>id_action := Some (fst (choose_id a w))\<rparr>)
       (actions w)"
  by (simp add: addAction_def choose_id_def wrapActionWithControls_def generateActionId_def
      debounce_def throttle_def Let_def split_def split: option.splits)

lemma addAction_engine_fields:
  "config (addAction a w) = config w \<and> currentState (addAction a w) = currentState w \<and>
   previousState (addAction a w) = previousState w \<and>
   executingActions (addAction a w) = executingActions w"
  by (simp add: addAction_def choose_id_def wrapActionWithControls_def generateActionId_def
      debounce_def throttle_def Let_def split_def split: option.splits)

lemma addAction_keys:
  "fst ` set (actions (addAction a w)) = insert (fst (choose_id a w)) (fst ` set (actions w))"
  by (simp add: addAction_actions dom_update)

lemma choose_id_given: "id_action a = Some s \<Longrightarrow> s \<noteq> [] \<Longrightarrow> fst (choose_id a w) = s"
  by (simp add: choose_id_def)

text \<open>
  C10. \<open>addAction\<close> and \<open>removeAction\<close> have no branch that throws and do not read
  \<open>isDestroyed\<close>. \<open>destroy\<close> empties the action map; on the destroyed engine, whatever
  happened since (\<open>xs\<close>), \<open>addAction\<close> stores the wrapped action under its id, so the map
  is not empty any more, and \<open>removeAction\<close> returns with the id absent. The engine stays
  destroyed throughout.
\<close>

theorem destroyed_engine_still_adds_and_removes_actions:
  "actions (destroy w) = [] \<and>
   isDestroyed (addAction a (run xs (destroy w))) \<and>
   map_of (actions (addAction a (run xs (destroy w)))) (fst (choose_id a (run xs (destroy w)))) =
     Some ((fst (wrapActionWithControls a (snd (choose_id a (run xs (destroy w))))))
             \<lparr>id_action := Some (fst (choose_id a (run xs (destroy w))))\<rparr>) \<and>
   actions (addAction a (run xs (destroy w))) \<noteq> [] \<and>
   isDestroyed (removeAction k (run xs (destroy w))) \<and>
   map_of (actions (removeAction k (run xs (destroy w)))) k = None"
proof -
  have "isDestroyed (destroy w)" by (simp add: destroy_def)
  then have d: "isDestroyed (run xs (destroy w))" by (rule run_isDestroyed)
  show ?thesis
    using d by (simp add: addAction_isDestroyed addAction_actions update_conv'
        removeAction_def delete_conv' destroy_def)
qed

subsection \<open>Configuring\<close>

text \<open>
  C9 as stated fails on a second \<open>configure\<close>: \<open>configure\<close> never assigns
  \<open>previousState\<close>. Configure with state 1, update to 2, configure again with state 5:
  the second call succeeds and \<open>previousState\<close> is still 1, not null.
\<close>

theorem configure_again_keeps_previousState:
  "\<not> isl (configure second_config (run [Configure first_config, UpdateState (JNum 2)] (new_engine no_random))) \<and>
   previousState (run [Configure first_config, UpdateState (JNum 2), Configure second_config] (new_engine no_random)) = JNum 1"
  by (simp add: first_config_def second_config_def scenario eng)

lemma foldl_addAction_fields:
  "config (foldl (\<lambda>w' a. addAction a w') w as) = config w \<and>
   currentState (foldl (\<lambda>w' a. addAction a w') w as) = currentState w \<and>
   previousState (foldl (\<lambda>w' a. addAction a w') w as) = previousState w \<and>
   isDestroyed (foldl (\<lambda>w' a. addAction a w') w as) = isDestroyed w \<and>
   fst ` set (actions w) \<subseteq> fst ` set (actions (foldl (\<lambda>w' a. addAction a w') w as))"
proof (induction as arbitrary: w)
  case Nil
  show ?case by simp
next
  case (Cons a as)
  show ?case using Cons.IH [of "addAction a w"] addAction_engine_fields [of a w]
    by (auto simp: addAction_isDestroyed addAction_keys)
qed

lemma foldl_addAction_registers:
  "a \<in> set as \<Longrightarrow> id_action a = Some s \<Longrightarrow> s \<noteq> [] \<Longrightarrow>
   s \<in> fst ` set (actions (foldl (\<lambda>w' a. addAction a w') w as))"
proof (induction as arbitrary: w)
  case Nil
  then show ?case by simp
next
  case (Cons b as)
  show ?case
  proof (cases "a = b")
    case True
    have "s \<in> fst ` set (actions (addAction b w))"
      using Cons.prems True by (simp add: addAction_keys choose_id_given)
    then show ?thesis using foldl_addAction_fields [of "addAction b w" as] by auto
  next
    case False
    then show ?thesis using Cons by simp
  qed
qed

text \<open>
  C9, amended. A \<open>configure\<close> that succeeds stores the configuration (with it the error
  callback and the provider map), sets the current state to the supplied state, leaves
  the previous state as it was (null on a new engine, where no update has happened), and
  passes the supplied actions to \<open>addAction\<close> one after the other, so that every supplied
  id is registered.
\<close>

theorem configure_sets_current_and_registers:
  assumes "configure cfg w = Inr w'"
  shows "currentState w' = state_cfg cfg \<and> previousState w' = previousState w \<and>
         config w' = Some cfg \<and>
         w' = foldl (\<lambda>w' a. addAction a w') (w\<lparr>config := Some cfg, currentState := state_cfg cfg\<rparr>) (actions_cfg cfg) \<and>
         (\<forall>a \<in> set (actions_cfg cfg). \<forall>s. id_action a = Some s \<and> s \<noteq> [] \<longrightarrow> s \<in> fst ` set (actions w'))"
proof -
  have w': "w' = foldl (\<lambda>w' a. addAction a w') (w\<lparr>config := Some cfg, currentState := state_cfg cfg\<rparr>) (actions_cfg cfg)"
    using assms by (simp add: configure_def split: if_splits)
  show ?thesis
    using foldl_addAction_fields [of "w\<lparr>config := Some cfg, currentState := state_cfg cfg\<rparr>" "actions_cfg cfg"]
          foldl_addAction_registers [of _ "actions_cfg cfg" _ "w\<lparr>config := Some cfg, currentState := state_cfg cfg\<rparr>"]
    by (auto simp: w')
qed

text \<open>
  An instance: an engine configured with one action that has run for an update from 1 to
  2 is configured again, with a provider, an error callback and two actions. The current
  state becomes 5, the previous state stays 1, the configuration is stored, and the two
  new actions are registered beside the one already there.
\<close>

theorem configure_sets_current_and_registers_witness:
  "log updated_engine = [JNum 2] \<and>
   \<not> isl (configure full_config updated_engine) \<and>
   currentState (step (Configure full_config) updated_engine) = JNum 5 \<and>
   previousState (step (Configure full_config) updated_engine) = JNum 1 \<and>
   config (step (Configure full_config) updated_engine) = Some full_config \<and>
   map fst (actions (step (Configure full_config) updated_engine)) = [''a'', ''b'', ''d'']"
proof -
  define w' where "w' = step (Configure full_config) updated_engine"
  have u: "log updated_engine = [JNum 2] \<and> previousState updated_engine = JNum 1 \<and>
           \<not> isDestroyed updated_engine \<and> map fst (actions updated_engine) = [''a'']"
    by (simp add: updated_engine_def acting_config_def scenario eng)
  have c: "configure full_config updated_engine = Inr w'"
    using u by (simp add: w'_def configure_def)
  note r = configure_sets_current_and_registers [OF c]
  have 1: "currentState w' = JNum 5"
    using r [THEN conjunct1] by (simp add: full_config_def)
  have 2: "previousState w' = JNum 1"
    using r [THEN conjunct2, THEN conjunct1] u by simp
  have 3: "config w' = Some full_config"
    using r [THEN conjunct2, THEN conjunct2, THEN conjunct1] by simp
  have k: "map fst (actions w') =
             map fst (actions (foldl (\<lambda>w' a. addAction a w')
               (updated_engine\<lparr>config := Some full_config, currentState := state_cfg full_config\<rparr>)
               (actions_cfg full_config)))"
    using r [THEN conjunct2, THEN conjunct2, THEN conjunct2, THEN conjunct1] by simp
  have 4: "map fst (actions w') = [''a'', ''b'', ''d'']"
    using u unfolding k
    by (simp add: full_config_def debounced_action_def plain_action_def addAction_def choose_id_def
          wrapActionWithControls_def debounce_def Let_def split_def update_keys)
  have l: "log updated_engine = [JNum 2]" using u by simp
  have n: "\<not> isl (configure full_config updated_engine)" using c by simp
  show ?thesis using l n 1 2 3 4 unfolding w'_def by (intro conjI)
qed

subsection \<open>Timers\<close>

lemma executed_append: "executed (xs @ ys) = executed xs @ executed ys"
  by (induction xs rule: executed.induct) simp_all

lemma advance_add: "advance (a + b) w = advance b (advance a w)"
  by (induction a arbitrary: w) simp_all

subsection \<open>Debounce and throttle together\<close>




subsection \<open>One closure among others\<close>

text \<open>
  What calls of foreign functions, foreign timers and the passing of time leave alone: the
  runs of the action, the closure's own timers, its cell and its flag.
\<close>

lemma timer_delay_pos: "1 \<le> timer_delay d"
  by (simp add: timer_delay_def)

lemma runs_of_trace_eq: "executed (trace w') = executed (trace w) \<Longrightarrow> runs_of k w' = runs_of k w"
  by (simp add: runs_of_def)

lemma undisturbed_refl: "apart k dc tc T w \<Longrightarrow> undisturbed k dc tc T w w"
  by (simp add: undisturbed_def)

lemma undisturbed_trans:
  "undisturbed k dc tc T w w' \<Longrightarrow> undisturbed k dc tc T w' w'' \<Longrightarrow> undisturbed k dc tc T w w''"
  by (simp add: undisturbed_def)

lemma undisturbed_apart: "undisturbed k dc tc T w w' \<Longrightarrow> apart k dc tc T w'"
  by (simp add: undisturbed_def)

text \<open>Steps that foreign code is made of.\<close>

lemma clear_foreign:
  assumes "apart k dc tc T w" and "dc \<noteq> Some c"
  shows "undisturbed k dc tc T w (clearTimeout (timeoutId w c) w)"
proof (cases "timeoutId w c")
  case None
  then show ?thesis using assms(1) by (simp add: clearTimeout_def undisturbed_refl)
next
  case (Some i)
  have "i \<notin> T" using assms Some by (auto simp: apart_def)
  then show ?thesis using assms(1) Some
    by (auto simp: undisturbed_def apart_def ids_ok_def clearTimeout_def remove_timer_def
        runs_of_def distinct_map_filter)
qed

lemma set_foreign:
  assumes "apart k dc tc T w" and "foreign_cb k dc tc cb"
  shows "undisturbed k dc tc T w (snd (setTimeout cb delay w))"
  using assms
  by (auto simp: undisturbed_def apart_def ids_ok_def setTimeout_def runs_of_def less_Suc_eq)


lemma remember_foreign:
  assumes "apart k dc tc T w" and "dc \<noteq> Some c" and "i < next_timer w" and "i \<notin> T"
  shows "undisturbed k dc tc T w (w\<lparr>timeoutId := (timeoutId w)(c := Some i)\<rparr>)"
  using assms by (auto simp: undisturbed_def apart_def ids_ok_def runs_of_def)

lemma flag_foreign:
  assumes "apart k dc tc T w" and "tc \<noteq> Some c"
  shows "undisturbed k dc tc T w (w\<lparr>inThrottle := (inThrottle w)(c := b)\<rparr>)"
  using assms by (auto simp: undisturbed_def apart_def ids_ok_def runs_of_def)

lemma trace_foreign:
  assumes "apart k dc tc T w" and "filter (\<lambda>x. trigger_md (metadata x) = k) (executed es) = []"
  shows "undisturbed k dc tc T w (w\<lparr>trace := trace w @ es\<rparr>)"
  using assms by (auto simp: undisturbed_def apart_def ids_ok_def runs_of_def executed_append)

lemma setTimeout_fields:
  "fst (setTimeout cb delay w) = next_timer w \<and> next_timer (snd (setTimeout cb delay w)) = Suc (next_timer w) \<and>
   now (snd (setTimeout cb delay w)) = now w"
  by (simp add: setTimeout_def)

lemma clearTimeout_fields:
  "next_timer (clearTimeout t w) = next_timer w \<and> now (clearTimeout t w) = now w"
  by (simp add: clearTimeout_def split: option.splits)

lemma apart_bound: "apart k dc tc T w \<Longrightarrow> i \<in> T \<Longrightarrow> i < next_timer w"
  by (simp add: apart_def)

lemma call_foreign:
  assumes "apart k dc tc T w" and "\<not> touches dc tc g" and "trigger_md (metadata y) \<noteq> k"
  shows "undisturbed k dc tc T w (snd (call_exec g y w)) \<and> now (snd (call_exec g y w)) = now w"
  using assms
proof (induction g arbitrary: w y)
  case (Orig h)
  show ?case using trace_foreign [OF Orig(1), of "[FuncRan y]"] Orig(3) by simp
next
  case (Debounce c g d)
  have c: "dc \<noteq> Some c" using Debounce.prems(2) by simp
  define w1 where "w1 = clearTimeout (timeoutId w c) w"
  define w2 where "w2 = snd (setTimeout (CallFunc g y) d w1)"
  define w3 where "w3 = w2\<lparr>timeoutId := (timeoutId w2)(c := Some (next_timer w))\<rparr>"
  have r: "snd (call_exec (Debounce c g d) y w) = w3"
    using setTimeout_fields [of "CallFunc g y" d w1] clearTimeout_fields [of "timeoutId w c" w]
    by (simp add: w3_def w2_def w1_def split_def Let_def)
  have u1: "undisturbed k dc tc T w w1"
    unfolding w1_def by (rule clear_foreign [OF Debounce.prems(1) c])
  have f: "foreign_cb k dc tc (CallFunc g y)" using Debounce.prems(2,3) by simp
  have u2: "undisturbed k dc tc T w1 w2"
    unfolding w2_def by (rule set_foreign [OF undisturbed_apart [OF u1] f])
  have n2: "next_timer w2 = Suc (next_timer w) \<and> now w2 = now w"
    using setTimeout_fields [of "CallFunc g y" d w1] clearTimeout_fields [of "timeoutId w c" w]
    by (simp add: w2_def w1_def)
  have nt: "next_timer w \<notin> T" using apart_bound [OF Debounce.prems(1)] by auto
  have u3: "undisturbed k dc tc T w2 w3"
    unfolding w3_def
    using remember_foreign [OF undisturbed_apart [OF u2] c, of "next_timer w"] n2 nt by simp
  have "undisturbed k dc tc T w w3"
    by (rule undisturbed_trans [OF undisturbed_trans [OF u1 u2] u3])
  moreover have "now w3 = now w" using n2 by (simp add: w3_def)
  ultimately show ?case by (simp only: r)
next
  case (Throttle c g l)
  have c: "tc \<noteq> Some c" and g: "\<not> touches dc tc g" using Throttle.prems(2) by simp_all
  show ?case
  proof (cases "inThrottle w c")
    case True
    then show ?thesis using Throttle.prems(1) by (simp add: undisturbed_refl)
  next
    case False
    obtain res w1 where r1: "call_exec g y w = (res, w1)" by (meson surj_pair)
    have u1: "undisturbed k dc tc T w w1" and n1: "now w1 = now w"
      using Throttle.IH [OF Throttle.prems(1) g Throttle.prems(3)] r1 by simp_all
    show ?thesis
    proof (cases res)
      case (Inl e)
      then show ?thesis using False r1 u1 n1 by simp
    next
      case (Inr rv)
      define w2 where "w2 = w1\<lparr>inThrottle := (inThrottle w1)(c := True)\<rparr>"
      define w3 where "w3 = snd (setTimeout (ClearThrottle c) l w2)"
      have r: "snd (call_exec (Throttle c g l) y w) = w3"
        using False r1 Inr by (simp add: w3_def w2_def split_def Let_def)
      have u2: "undisturbed k dc tc T w1 w2"
        unfolding w2_def by (rule flag_foreign [OF undisturbed_apart [OF u1] c])
      have f: "foreign_cb k dc tc (ClearThrottle c)" using c by simp
      have u3: "undisturbed k dc tc T w2 w3"
        unfolding w3_def by (rule set_foreign [OF undisturbed_apart [OF u2] f])
      have "undisturbed k dc tc T w w3"
        by (rule undisturbed_trans [OF undisturbed_trans [OF u1 u2] u3])
      moreover have "now w3 = now w"
        using n1 setTimeout_fields [of "ClearThrottle c" l w2] by (simp add: w3_def w2_def)
      ultimately show ?thesis by (simp only: r)
    qed
  qed
qed

lemma run_callback_foreign:
  assumes "apart k dc tc T w" and "foreign_cb k dc tc cb"
  shows "undisturbed k dc tc T w (run_callback cb w) \<and> now (run_callback cb w) = now w"
proof (cases cb)
  case (CallFunc g y)
  then have g: "\<not> touches dc tc g" and y: "trigger_md (metadata y) \<noteq> k" using assms(2) by simp_all
  obtain res w1 where r1: "call_exec g y w = (res, w1)" by (meson surj_pair)
  have u1: "undisturbed k dc tc T w w1" and n1: "now w1 = now w"
    using call_foreign [OF assms(1) g y] r1 by simp_all
  have u2: "undisturbed k dc tc T w1 (w1\<lparr>trace := trace w1 @ [Uncaught e]\<rparr>)" for e
    using trace_foreign [OF undisturbed_apart [OF u1], of "[Uncaught e]"] by simp
  have u3: "undisturbed k dc tc T w (w1\<lparr>trace := trace w1 @ [Uncaught e]\<rparr>)" for e
    by (rule undisturbed_trans [OF u1 u2])
  show ?thesis using CallFunc r1 u1 n1 u3
    by (auto simp: run_callback_def split: sum.splits retval.splits option.splits)
next
  case (ClearThrottle c)
  then have "tc \<noteq> Some c" using assms(2) by simp
  then show ?thesis using ClearThrottle flag_foreign [OF assms(1), of c False]
    by (simp add: run_callback_def)
qed

lemma remove_foreign:
  assumes "apart k dc tc T w" and "i \<notin> T"
  shows "undisturbed k dc tc T w (w\<lparr>timers := remove_timer i (timers w)\<rparr>)"
  using assms
  by (auto simp: undisturbed_def apart_def ids_ok_def remove_timer_def runs_of_def distinct_map_filter)

lemma fire_foreign:
  assumes "apart k dc tc T w" and "set is \<inter> T = {}"
  shows "undisturbed k dc tc T w (fire is w) \<and> now (fire is w) = now w"
  using assms
proof (induction "is" arbitrary: w)
  case Nil
  then show ?case by (simp add: undisturbed_refl)
next
  case (Cons i rest)
  have i: "i \<notin> T" and rest: "set rest \<inter> T = {}" using Cons.prems(2) by auto
  show ?case
  proof (cases "find (\<lambda>t. fst t = i) (timers w)")
    case None
    then show ?thesis using Cons.IH [OF Cons.prems(1) rest] by simp
  next
    case (Some t)
    then have t: "t \<in> set (timers w)" and ft: "fst t = i"
      by (auto simp: find_Some_iff in_set_conv_nth)
    have f: "foreign_cb k dc tc (snd (snd t))"
      using Cons.prems(1) t ft i by (auto simp: apart_def)
    define w1 where "w1 = w\<lparr>timers := remove_timer i (timers w)\<rparr>"
    define w2 where "w2 = run_callback (snd (snd t)) w1"
    have u1: "undisturbed k dc tc T w w1"
      unfolding w1_def by (rule remove_foreign [OF Cons.prems(1) i])
    have f1: "foreign_cb k dc tc (snd (snd t))" by (rule f)
    have u2: "undisturbed k dc tc T w1 w2" and n2: "now w2 = now w1"
      using run_callback_foreign [OF undisturbed_apart [OF u1] f1] by (simp_all add: w2_def)
    have u3: "undisturbed k dc tc T w2 (fire rest w2)" and n3: "now (fire rest w2) = now w2"
      using Cons.IH [OF undisturbed_apart [OF u2] rest] by simp_all
    have e: "fire (i # rest) w = fire rest w2" using Some by (simp add: w2_def w1_def)
    have "undisturbed k dc tc T w (fire rest w2)"
      by (rule undisturbed_trans [OF undisturbed_trans [OF u1 u2] u3])
    moreover have "now (fire rest w2) = now w" using n3 n2 by (simp add: w1_def)
    ultimately show ?thesis by (simp only: e)
  qed
qed


lemma fire_append: "fire (xs @ ys) w = fire ys (fire xs w)"
  by (induction xs arbitrary: w) (simp_all split: option.splits)

lemma now_foreign:
  "apart k dc tc T w \<Longrightarrow> undisturbed k dc tc T w (w\<lparr>now := n\<rparr>)"
  by (simp add: undisturbed_def apart_def ids_ok_def runs_of_def)

lemma undisturbed_own:
  "undisturbed k dc tc T w w' \<Longrightarrow> fst t \<in> T \<Longrightarrow> (t \<in> set (timers w')) = (t \<in> set (timers w))"
  unfolding undisturbed_def by blast

lemma tick_foreign:
  assumes "apart k dc tc T w"
    and "\<forall>t \<in> set (timers w). fst t \<in> T \<longrightarrow> Suc (now w) < fst (snd t)"
  shows "undisturbed k dc tc T w (tick w) \<and> now (tick w) = Suc (now w)"
proof -
  define w1 where "w1 = w\<lparr>now := Suc (now w)\<rparr>"
  define L where "L = map fst (filter (\<lambda>t. fst (snd t) \<le> now w1) (timers w1))"
  have t: "tick w = fire L w1" by (simp add: tick_def L_def w1_def Let_def)
  have u1: "undisturbed k dc tc T w w1" unfolding w1_def by (rule now_foreign [OF assms(1)])
  have "set L \<inter> T = {}" using assms(2) by (auto simp: L_def w1_def)
  then have "undisturbed k dc tc T w1 (fire L w1) \<and> now (fire L w1) = now w1"
    by (rule fire_foreign [OF undisturbed_apart [OF u1]])
  then show ?thesis using u1 undisturbed_trans [OF u1] by (simp add: t w1_def)
qed

lemma advance_foreign:
  assumes "apart k dc tc T w"
    and "\<forall>t \<in> set (timers w). fst t \<in> T \<longrightarrow> now w + n < fst (snd t)"
  shows "undisturbed k dc tc T w (advance n w) \<and> now (advance n w) = now w + n"
  using assms
proof (induction n arbitrary: w)
  case 0
  then show ?case by (simp add: undisturbed_refl)
next
  case (Suc n)
  have "\<forall>t \<in> set (timers w). fst t \<in> T \<longrightarrow> Suc (now w) < fst (snd t)"
  proof (intro ballI impI)
    fix t assume "t \<in> set (timers w)" and "fst t \<in> T"
    then have "now w + Suc n < fst (snd t)" using Suc.prems(2) by blast
    then show "Suc (now w) < fst (snd t)" by simp
  qed
  then have u1: "undisturbed k dc tc T w (tick w)" and n1: "now (tick w) = Suc (now w)"
    using tick_foreign [OF Suc.prems(1)] by simp_all
  have "\<forall>t \<in> set (timers (tick w)). fst t \<in> T \<longrightarrow> now (tick w) + n < fst (snd t)"
  proof (intro ballI impI)
    fix t assume "t \<in> set (timers (tick w))" and t: "fst t \<in> T"
    then have "t \<in> set (timers w)" using undisturbed_own [OF u1 t] by simp
    then have "now w + Suc n < fst (snd t)" using Suc.prems(2) t by blast
    then show "now (tick w) + n < fst (snd t)" using n1 by simp
  qed
  then have "undisturbed k dc tc T (tick w) (advance n (tick w)) \<and>
             now (advance n (tick w)) = now (tick w) + n"
    by (rule Suc.IH [OF undisturbed_apart [OF u1]])
  then show ?case using undisturbed_trans [OF u1] n1 by simp
qed

lemma find_distinct:
  "distinct (map fst ts) \<Longrightarrow> t \<in> set ts \<Longrightarrow> find (\<lambda>u. fst u = fst t) ts = Some t"
proof (induction ts)
  case Nil
  then show ?case by simp
next
  case (Cons u ts)
  then show ?case by (cases "u = t") (auto simp: image_iff)
qed

lemma own_unique:
  assumes "apart k dc tc {tid} w" and "(tid, due, cb) \<in> set (timers w)" and "t \<in> set (timers w)"
    and "fst t = tid"
  shows "t = (tid, due, cb)"
proof -
  have "distinct (map fst (timers w))" using assms(1) by (simp add: apart_def ids_ok_def)
  then have "find (\<lambda>u. fst u = tid) (timers w) = Some t"
    and "find (\<lambda>u. fst u = tid) (timers w) = Some (tid, due, cb)"
    using find_distinct [of "timers w" t] find_distinct [of "timers w" "(tid, due, cb)"] assms(2,3,4)
    by simp_all
  then show ?thesis by simp
qed

lemma release_own:
  assumes "apart k dc tc {tid} w"
  shows "apart k dc tc {} (w\<lparr>timers := remove_timer tid (timers w)\<rparr>)"
  using assms by (auto simp: apart_def ids_ok_def remove_timer_def distinct_map_filter)

text \<open>The millisecond in which the closure's own timer fires.\<close>

lemma tick_own:
  assumes "apart k dc tc {tid} w" and "(tid, due, cb) \<in> set (timers w)" and "due \<le> Suc (now w)"
  obtains wa where "undisturbed k dc tc {tid} w wa" and "now wa = Suc (now w)"
    and "apart k dc tc {} (run_callback cb (wa\<lparr>timers := remove_timer tid (timers wa)\<rparr>)) \<longrightarrow>
         undisturbed k dc tc {} (run_callback cb (wa\<lparr>timers := remove_timer tid (timers wa)\<rparr>)) (tick w) \<and>
         now (tick w) = now (run_callback cb (wa\<lparr>timers := remove_timer tid (timers wa)\<rparr>))"
proof -
  define w1 where "w1 = w\<lparr>now := Suc (now w)\<rparr>"
  define L where "L = map fst (filter (\<lambda>t. fst (snd t) \<le> now w1) (timers w1))"
  have t: "tick w = fire L w1" by (simp add: tick_def L_def w1_def Let_def)
  have u1: "undisturbed k dc tc {tid} w w1" unfolding w1_def by (rule now_foreign [OF assms(1)])
  have "tid \<in> set L" using assms(2,3) by (force simp: L_def w1_def)
  then obtain pre post where L: "L = pre @ tid # post" by (meson split_list)
  have "distinct (map fst (timers w))" using assms(1) by (simp add: apart_def ids_ok_def)
  then have "distinct L" by (simp add: L_def w1_def distinct_map_filter)
  then have pre: "set pre \<inter> {tid} = {}" and post: "set post \<inter> {} = {}" and npost: "tid \<notin> set post"
    using L by auto
  define wa where "wa = fire pre w1"
  have ua: "undisturbed k dc tc {tid} w1 wa" and na: "now wa = now w1"
    using fire_foreign [OF undisturbed_apart [OF u1] pre] by (simp_all add: wa_def)
  have u: "undisturbed k dc tc {tid} w wa" by (rule undisturbed_trans [OF u1 ua])
  have own: "(tid, due, cb) \<in> set (timers wa)"
    using undisturbed_own [OF u, of "(tid, due, cb)"] assms(2) by simp
  have "distinct (map fst (timers wa))"
    using undisturbed_apart [OF u] by (simp add: apart_def ids_ok_def)
  then have f: "find (\<lambda>t. fst t = tid) (timers wa) = Some (tid, due, cb)"
    using find_distinct [of "timers wa" "(tid, due, cb)"] own by simp
  define wb where "wb = run_callback cb (wa\<lparr>timers := remove_timer tid (timers wa)\<rparr>)"
  have e: "tick w = fire post wb"
    using f by (simp add: t L fire_append wa_def wb_def)
  have "apart k dc tc {} wb \<longrightarrow> undisturbed k dc tc {} wb (tick w) \<and> now (tick w) = now wb"
    using fire_foreign [of k dc tc "{}" wb post] by (simp add: e)
  then show ?thesis using that [of wa] u na by (simp add: wb_def w1_def)
qed

subsection \<open>Debounce on a script\<close>

lemma apart_trace: "apart k dc tc T (w\<lparr>trace := es\<rparr>) = apart k dc tc T w"
  by (simp add: apart_def ids_ok_def)

lemma runs_of_ran:
  "runs_of k (w\<lparr>trace := trace w @ [FuncRan x]\<rparr>) =
     runs_of k w @ (if trigger_md (metadata x) = k then [x] else [])"
  by (simp add: runs_of_def executed_append)

lemma runs_of_uncaught: "runs_of k (w\<lparr>trace := trace w @ [Uncaught e]\<rparr>) = runs_of k w"
  by (simp add: runs_of_def executed_append)

lemma own_run_debounce:
  assumes "apart k dc tc {} w" and "trigger_md (metadata x) = k"
  shows "apart k dc tc {} (run_callback (CallFunc (Orig f) x) w) \<and>
         runs_of k (run_callback (CallFunc (Orig f) x) w) = runs_of k w @ [x] \<and>
         now (run_callback (CallFunc (Orig f) x) w) = now w"
  using assms
  by (auto simp: run_callback_def apart_trace runs_of_ran runs_of_uncaught runs_of_def executed_append
      split: sum.splits retval.splits option.splits)

lemma deb_invoke:
  assumes "deb_state k c f p w" and "trigger_md (metadata x) = k"
  shows "deb_state k c f (Some (timer_delay d, x)) (snd (call_exec (Debounce c (Orig f) d) x w)) \<and>
         runs_of k (snd (call_exec (Debounce c (Orig f) d) x w)) = runs_of k w"
proof -
  define w' where "w' = snd (call_exec (Debounce c (Orig f) d) x w)"
  obtain T where T: "apart k (Some c) None T w" and own: "\<forall>i \<in> T. timeoutId w c = Some i"
  proof (cases p)
    case None
    then show ?thesis using that [of "{}"] assms(1) by (simp add: deb_state_def)
  next
    case (Some rx)
    then obtain tid where "apart k (Some c) None {tid} w" and "timeoutId w c = Some tid"
      using assms(1) by (auto simp: deb_state_def)
    then show ?thesis using that [of "{tid}"] by simp
  qed
  have w': "w' = (clearTimeout (timeoutId w c) w)
      \<lparr>timers := timers (clearTimeout (timeoutId w c) w) @
          [(next_timer w, now w + timer_delay d, CallFunc (Orig f) x)],
       next_timer := Suc (next_timer w),
       timeoutId := (timeoutId w)(c := Some (next_timer w))\<rparr>"
    by (simp add: w'_def setTimeout_def clearTimeout_def Let_def split: option.splits)
  have a: "apart k (Some c) None {next_timer w} w'"
    unfolding w' using T own
    by (auto simp: apart_def ids_ok_def clearTimeout_def remove_timer_def distinct_map_filter
        less_Suc_eq split: option.splits)
  have m: "(next_timer w, now w' + timer_delay d, CallFunc (Orig f) x) \<in> set (timers w')"
    unfolding w' by (simp add: clearTimeout_def split: option.splits)
  have i: "timeoutId w' c = Some (next_timer w)" unfolding w' by (simp add: clearTimeout_def split: option.splits)
  have r: "runs_of k w' = runs_of k w"
    unfolding w' by (simp add: runs_of_def clearTimeout_def split: option.splits)
  show ?thesis
    using a m i r assms(2) timer_delay_pos [of d] unfolding w'_def [symmetric]
    by (auto simp: deb_state_def)
qed


lemma undisturbed_cell:
  "undisturbed k (Some c) tc T w w' \<Longrightarrow> timeoutId w' c = timeoutId w c"
  by (simp add: undisturbed_def)

lemma undisturbed_runs: "undisturbed k dc tc T w w' \<Longrightarrow> runs_of k w' = runs_of k w"
  by (simp add: undisturbed_def)

lemma deb_kept:
  assumes "deb_state k c f (Some (r, x)) w" and "r' + m = r" and "1 \<le> r'"
    and "\<And>tid. apart k (Some c) None {tid} w \<Longrightarrow> timeoutId w c = Some tid \<Longrightarrow>
           undisturbed k (Some c) None {tid} w w' \<and> now w' = now w + m"
  shows "deb_state k c f (Some (r', x)) w' \<and> runs_of k w' = runs_of k w"
proof -
  obtain tid where a: "apart k (Some c) None {tid} w" and i: "timeoutId w c = Some tid"
      and own: "(tid, now w + r, CallFunc (Orig f) x) \<in> set (timers w)"
      and x: "trigger_md (metadata x) = k"
    using assms(1) by (auto simp: deb_state_def)
  have u: "undisturbed k (Some c) None {tid} w w'" and n: "now w' = now w + m"
    using assms(4) [OF a i] by simp_all
  have "(tid, now w + r, CallFunc (Orig f) x) \<in> set (timers w')"
    using undisturbed_own [OF u, of "(tid, now w + r, CallFunc (Orig f) x)"] own by simp
  moreover have "now w + r = now w' + r'" using n assms(2) by simp
  ultimately have "(tid, now w' + r', CallFunc (Orig f) x) \<in> set (timers w')" by simp
  then show ?thesis
    using undisturbed_apart [OF u] undisturbed_cell [OF u] undisturbed_runs [OF u] i x assms(3)
    by (auto simp: deb_state_def)
qed

lemma deb_other:
  assumes "deb_state k c f p w" and "\<not> touches (Some c) None g" and "trigger_md (metadata y) \<noteq> k"
  shows "deb_state k c f p (snd (call_exec g y w)) \<and> runs_of k (snd (call_exec g y w)) = runs_of k w"
proof (cases p)
  case None
  then have "apart k (Some c) None {} w" using assms(1) by (simp add: deb_state_def)
  then have "undisturbed k (Some c) None {} w (snd (call_exec g y w))"
    using call_foreign [OF _ assms(2,3)] by simp
  then show ?thesis using None undisturbed_apart undisturbed_runs by (auto simp: deb_state_def)
next
  case (Some rx)
  obtain r x where rx: "rx = (r, x)" by (cases rx)
  have r1: "1 \<le> r" using assms(1) Some rx by (simp add: deb_state_def)
  show ?thesis
    using deb_kept [of k c f r x w r 0 "snd (call_exec g y w)"] assms(1) Some rx r1
          call_foreign [OF _ assms(2,3)]
    by simp
qed

lemma own_timer_due:
  assumes "apart k dc tc {tid} w" and "(tid, due, cb) \<in> set (timers w)"
  shows "\<forall>t \<in> set (timers w). fst t \<in> {tid} \<longrightarrow> fst (snd t) = due"
proof (intro ballI impI)
  fix t assume "t \<in> set (timers w)" and "fst t \<in> {tid}"
  then have "t = (tid, due, cb)" using own_unique [OF assms, of t] by simp
  then show "fst (snd t) = due" by simp
qed

lemma deb_wait:
  assumes "deb_state k c f p w"
  shows "case p of
           None \<Rightarrow> deb_state k c f None (advance n w) \<and> runs_of k (advance n w) = runs_of k w
         | Some rx \<Rightarrow>
             if fst rx \<le> n
             then deb_state k c f None (advance n w) \<and> runs_of k (advance n w) = runs_of k w @ [snd rx]
             else deb_state k c f (Some (fst rx - n, snd rx)) (advance n w) \<and>
                  runs_of k (advance n w) = runs_of k w"
proof (cases p)
  case None
  then have "apart k (Some c) None {} w" using assms by (simp add: deb_state_def)
  then have "undisturbed k (Some c) None {} w (advance n w)"
    using advance_foreign [of k "Some c" None "{}" w n] by simp
  then show ?thesis using None undisturbed_apart undisturbed_runs by (auto simp: deb_state_def)
next
  case (Some rx)
  obtain r x where rx: "rx = (r, x)" by (cases rx)
  obtain tid where a: "apart k (Some c) None {tid} w" and i: "timeoutId w c = Some tid"
      and own: "(tid, now w + r, CallFunc (Orig f) x) \<in> set (timers w)"
      and x: "trigger_md (metadata x) = k" and r1: "1 \<le> r"
    using assms Some rx by (auto simp: deb_state_def)
  have quiet: "\<And>m tid'. m < r \<Longrightarrow> apart k (Some c) None {tid'} w \<Longrightarrow> timeoutId w c = Some tid' \<Longrightarrow>
        undisturbed k (Some c) None {tid'} w (advance m w) \<and> now (advance m w) = now w + m"
  proof -
    fix m tid' assume m: "m < r" and a': "apart k (Some c) None {tid'} w"
      and "timeoutId w c = Some tid'"
    then have same: "tid' = tid" using i by simp
    have "\<forall>t \<in> set (timers w). fst t \<in> {tid'} \<longrightarrow> now w + m < fst (snd t)"
    proof (intro ballI impI)
      fix t assume t: "t \<in> set (timers w)" and ft: "fst t \<in> {tid'}"
      then have "fst (snd t) = now w + r" using own_timer_due [OF a own] same by simp
      then show "now w + m < fst (snd t)" using m by simp
    qed
    then show "undisturbed k (Some c) None {tid'} w (advance m w) \<and> now (advance m w) = now w + m"
      by (rule advance_foreign [OF a'])
  qed
  show ?thesis
  proof (cases "r \<le> n")
    case False
    then have m: "n < r" by simp
    have "deb_state k c f (Some (r - n, x)) (advance n w) \<and> runs_of k (advance n w) = runs_of k w"
      using deb_kept [of k c f r x w "r - n" n "advance n w"] assms Some rx m quiet [OF m] by simp
    then show ?thesis using Some rx False by simp
  next
    case True
    obtain a0 where r: "r = Suc a0" using r1 by (cases r) auto
    define b where "b = n - r"
    have n: "n = a0 + Suc b" using True r by (simp add: b_def)
    define wA where "wA = advance a0 w"
    have sA: "deb_state k c f (Some (1, x)) wA" and rA: "runs_of k wA = runs_of k w"
      using deb_kept [of k c f r x w 1 a0 wA] assms Some rx r quiet [of a0] by (simp_all add: wA_def)
    obtain tidA where aA: "apart k (Some c) None {tidA} wA"
        and ownA: "(tidA, now wA + 1, CallFunc (Orig f) x) \<in> set (timers wA)"
      using sA by (auto simp: deb_state_def)
    obtain wa where ua: "undisturbed k (Some c) None {tidA} wA wa" and na: "now wa = Suc (now wA)"
        and fin: "apart k (Some c) None {} (run_callback (CallFunc (Orig f) x) (wa\<lparr>timers := remove_timer tidA (timers wa)\<rparr>)) \<longrightarrow>
         undisturbed k (Some c) None {} (run_callback (CallFunc (Orig f) x) (wa\<lparr>timers := remove_timer tidA (timers wa)\<rparr>)) (tick wA) \<and>
         now (tick wA) = now (run_callback (CallFunc (Orig f) x) (wa\<lparr>timers := remove_timer tidA (timers wa)\<rparr>))"
      using tick_own [OF aA ownA] by auto
    define wr where "wr = wa\<lparr>timers := remove_timer tidA (timers wa)\<rparr>"
    define wb where "wb = run_callback (CallFunc (Orig f) x) wr"
    have ar: "apart k (Some c) None {} wr"
      unfolding wr_def by (rule release_own [OF undisturbed_apart [OF ua]])
    have rr: "runs_of k wr = runs_of k wA"
      using undisturbed_runs [OF ua] by (simp add: wr_def runs_of_def)
    have ab: "apart k (Some c) None {} wb" and rb: "runs_of k wb = runs_of k wr @ [x]"
      using own_run_debounce [OF ar x, of f] by (simp_all add: wb_def)
    have ut: "undisturbed k (Some c) None {} wb (tick wA)"
      using fin ab by (simp add: wb_def wr_def)
    have at: "apart k (Some c) None {} (tick wA)" by (rule undisturbed_apart [OF ut])
    have rt: "runs_of k (tick wA) = runs_of k w @ [x]"
      using undisturbed_runs [OF ut] rb rr rA by simp
    have ue: "undisturbed k (Some c) None {} (tick wA) (advance b (tick wA))"
      using advance_foreign [OF at, of b] by simp
    have e: "advance n w = advance b (tick wA)"
      using advance_add [of a0 "Suc b" w] n by (simp add: wA_def)
    have "deb_state k c f None (advance n w) \<and> runs_of k (advance n w) = runs_of k w @ [x]"
      using undisturbed_apart [OF ue] undisturbed_runs [OF ue] rt by (simp add: e deb_state_def)
    then show ?thesis using Some rx True by simp
  qed
qed

lemma play_debounce:
  assumes "deb_state k c f p w" and "\<forall>a \<in> set s. act_ok k (Some c) None a"
  shows "runs_of k (play (Debounce c (Orig f) d) s w) = runs_of k w @ debounce_spec (timer_delay d) s p"
  using assms
proof (induction s arbitrary: p w)
  case Nil
  show ?case by simp
next
  case (Cons a s)
  have rest: "\<forall>a \<in> set s. act_ok k (Some c) None a" using Cons.prems(2) by simp
  show ?case
  proof (cases a)
    case (Wait n)
    show ?thesis
    proof (cases p)
      case None
      then show ?thesis
        using deb_wait [OF Cons.prems(1), of n] Cons.IH [of None "advance n w"] rest Wait by simp
    next
      case (Some rx)
      obtain r x where rx: "rx = (r, x)" by (cases rx)
      show ?thesis
      proof (cases "r \<le> n")
        case True
        then show ?thesis
          using deb_wait [OF Cons.prems(1), of n] Cons.IH [of None "advance n w"] rest Wait Some rx
          by simp
      next
        case False
        then show ?thesis
          using deb_wait [OF Cons.prems(1), of n] Cons.IH [of "Some (r - n, x)" "advance n w"]
            rest Wait Some rx
          by simp
      qed
    qed
  next
    case (Invoke x)
    then have "trigger_md (metadata x) = k" using Cons.prems(2) by simp
    then show ?thesis
      using deb_invoke [OF Cons.prems(1), of x d]
        Cons.IH [of "Some (timer_delay d, x)" "snd (call_exec (Debounce c (Orig f) d) x w)"] rest Invoke
      by simp
  next
    case (Other g y)
    then have "\<not> touches (Some c) None g" and "trigger_md (metadata y) \<noteq> k"
      using Cons.prems(2) by simp_all
    then show ?thesis
      using deb_other [OF Cons.prems(1), of g y] Cons.IH [of p "snd (call_exec g y w)"] rest Other
      by simp
  qed
qed

subsection \<open>Throttle on a script\<close>

lemma undisturbed_flag:
  "undisturbed k dc (Some c) T w w' \<Longrightarrow> inThrottle w' c = inThrottle w c"
  by (simp add: undisturbed_def)

lemma own_run_throttle:
  assumes "apart k dc tc {} w"
  shows "apart k dc tc {} (run_callback (ClearThrottle c) w) \<and>
         runs_of k (run_callback (ClearThrottle c) w) = runs_of k w \<and>
         \<not> inThrottle (run_callback (ClearThrottle c) w) c"
  using assms by (simp add: run_callback_def apart_def ids_ok_def runs_of_def)

lemma thr_own_id:
  assumes "apart k None (Some c) {tid} w" and "(tid', due, ClearThrottle c) \<in> set (timers w)"
  shows "tid' = tid"
  using assms by (auto simp: apart_def)

lemma thr_invoke:
  assumes "thr_state k c p w" and "trigger_md (metadata x) = k"
  shows "case p of
           None \<Rightarrow>
             thr_state k c (if isl (f x) then None else Some (timer_delay l))
               (snd (call_exec (Throttle c (Orig f) l) x w)) \<and>
             runs_of k (snd (call_exec (Throttle c (Orig f) l) x w)) = runs_of k w @ [x]
         | Some r \<Rightarrow>
             thr_state k c (Some r) (snd (call_exec (Throttle c (Orig f) l) x w)) \<and>
             runs_of k (snd (call_exec (Throttle c (Orig f) l) x w)) = runs_of k w"
proof (cases p)
  case (Some r)
  then show ?thesis using assms(1) by (simp add: thr_state_def)
next
  case None
  then have o: "\<not> inThrottle w c" and a: "apart k None (Some c) {} w"
    using assms(1) by (simp_all add: thr_state_def)
  show ?thesis
  proof (cases "f x")
    case (Inl e)
    then show ?thesis using None o a assms(2)
      by (simp add: thr_state_def apart_trace runs_of_ran)
  next
    case (Inr rv)
    define w' where "w' = snd (call_exec (Throttle c (Orig f) l) x w)"
    have w': "w' = w\<lparr>trace := trace w @ [FuncRan x], inThrottle := (inThrottle w)(c := True),
        timers := timers w @ [(next_timer w, now w + timer_delay l, ClearThrottle c)],
        next_timer := Suc (next_timer w)\<rparr>"
      using o Inr by (simp add: w'_def setTimeout_def Let_def)
    have ap: "apart k None (Some c) {next_timer w} w'"
      unfolding w' using a by (auto simp: apart_def ids_ok_def less_Suc_eq)
    have m: "(next_timer w, now w' + timer_delay l, ClearThrottle c) \<in> set (timers w')"
      unfolding w' by simp
    have r: "runs_of k w' = runs_of k w @ [x]"
      unfolding w' using assms(2) by (simp add: runs_of_def executed_append)
    have i: "inThrottle w' c" unfolding w' by simp
    show ?thesis
      using None Inr ap m r i timer_delay_pos [of l] unfolding w'_def [symmetric]
      by (auto simp: thr_state_def)
  qed
qed

lemma thr_kept:
  assumes "thr_state k c (Some r) w" and "r' + m = r" and "1 \<le> r'"
    and "\<And>tid. apart k None (Some c) {tid} w \<Longrightarrow> (tid, now w + r, ClearThrottle c) \<in> set (timers w) \<Longrightarrow>
           undisturbed k None (Some c) {tid} w w' \<and> now w' = now w + m"
  shows "thr_state k c (Some r') w' \<and> runs_of k w' = runs_of k w"
proof -
  obtain tid where a: "apart k None (Some c) {tid} w"
      and own: "(tid, now w + r, ClearThrottle c) \<in> set (timers w)" and i: "inThrottle w c"
    using assms(1) by (auto simp: thr_state_def)
  have u: "undisturbed k None (Some c) {tid} w w'" and n: "now w' = now w + m"
    using assms(4) [OF a own] by simp_all
  have "(tid, now w + r, ClearThrottle c) \<in> set (timers w')"
    using undisturbed_own [OF u, of "(tid, now w + r, ClearThrottle c)"] own by simp
  moreover have "now w + r = now w' + r'" using n assms(2) by simp
  ultimately have "(tid, now w' + r', ClearThrottle c) \<in> set (timers w')" by simp
  then show ?thesis
    using undisturbed_apart [OF u] undisturbed_flag [OF u] undisturbed_runs [OF u] i assms(3)
    by (auto simp: thr_state_def)
qed

lemma thr_other:
  assumes "thr_state k c p w" and "\<not> touches None (Some c) g" and "trigger_md (metadata y) \<noteq> k"
  shows "thr_state k c p (snd (call_exec g y w)) \<and> runs_of k (snd (call_exec g y w)) = runs_of k w"
proof (cases p)
  case None
  then have "apart k None (Some c) {} w" and o: "\<not> inThrottle w c"
    using assms(1) by (simp_all add: thr_state_def)
  then have "undisturbed k None (Some c) {} w (snd (call_exec g y w))"
    using call_foreign [OF _ assms(2,3)] by simp
  then show ?thesis
    using None o undisturbed_apart undisturbed_runs undisturbed_flag by (auto simp: thr_state_def)
next
  case (Some r)
  have r1: "1 \<le> r" using assms(1) Some by (simp add: thr_state_def)
  show ?thesis
    using thr_kept [of k c r w r 0 "snd (call_exec g y w)"] assms(1) Some r1
          call_foreign [OF _ assms(2,3)]
    by simp
qed

lemma thr_wait:
  assumes "thr_state k c p w"
  shows "thr_state k c (case p of None \<Rightarrow> None | Some r \<Rightarrow> if r \<le> n then None else Some (r - n))
           (advance n w) \<and>
         runs_of k (advance n w) = runs_of k w"
proof (cases p)
  case None
  then have "apart k None (Some c) {} w" and o: "\<not> inThrottle w c"
    using assms by (simp_all add: thr_state_def)
  then have "undisturbed k None (Some c) {} w (advance n w)"
    using advance_foreign [of k None "Some c" "{}" w n] by simp
  then show ?thesis
    using None o undisturbed_apart undisturbed_runs undisturbed_flag by (auto simp: thr_state_def)
next
  case (Some r)
  obtain tid where a: "apart k None (Some c) {tid} w"
      and own: "(tid, now w + r, ClearThrottle c) \<in> set (timers w)" and r1: "1 \<le> r"
    using assms Some by (auto simp: thr_state_def)
  have quiet: "\<And>m tid'. m < r \<Longrightarrow> apart k None (Some c) {tid'} w \<Longrightarrow>
        (tid', now w + r, ClearThrottle c) \<in> set (timers w) \<Longrightarrow>
        undisturbed k None (Some c) {tid'} w (advance m w) \<and> now (advance m w) = now w + m"
  proof -
    fix m tid' assume m: "m < r" and a': "apart k None (Some c) {tid'} w"
      and own': "(tid', now w + r, ClearThrottle c) \<in> set (timers w)"
    have "\<forall>t \<in> set (timers w). fst t \<in> {tid'} \<longrightarrow> now w + m < fst (snd t)"
    proof (intro ballI impI)
      fix t assume t: "t \<in> set (timers w)" and ft: "fst t \<in> {tid'}"
      then have "fst (snd t) = now w + r" using own_timer_due [OF a' own'] by simp
      then show "now w + m < fst (snd t)" using m by simp
    qed
    then show "undisturbed k None (Some c) {tid'} w (advance m w) \<and> now (advance m w) = now w + m"
      by (rule advance_foreign [OF a'])
  qed
  show ?thesis
  proof (cases "r \<le> n")
    case False
    then have m: "n < r" by simp
    have "thr_state k c (Some (r - n)) (advance n w) \<and> runs_of k (advance n w) = runs_of k w"
      using thr_kept [of k c r w "r - n" n "advance n w"] assms Some m quiet [OF m] by simp
    then show ?thesis using Some False by simp
  next
    case True
    obtain a0 where r: "r = Suc a0" using r1 by (cases r) auto
    define b where "b = n - r"
    have n: "n = a0 + Suc b" using True r by (simp add: b_def)
    define wA where "wA = advance a0 w"
    have sA: "thr_state k c (Some 1) wA" and rA: "runs_of k wA = runs_of k w"
      using thr_kept [of k c r w 1 a0 wA] assms Some r quiet [of a0] by (simp_all add: wA_def)
    obtain tidA where aA: "apart k None (Some c) {tidA} wA"
        and ownA: "(tidA, now wA + 1, ClearThrottle c) \<in> set (timers wA)"
      using sA by (auto simp: thr_state_def)
    obtain wa where ua: "undisturbed k None (Some c) {tidA} wA wa" and na: "now wa = Suc (now wA)"
        and fin: "apart k None (Some c) {} (run_callback (ClearThrottle c) (wa\<lparr>timers := remove_timer tidA (timers wa)\<rparr>)) \<longrightarrow>
         undisturbed k None (Some c) {} (run_callback (ClearThrottle c) (wa\<lparr>timers := remove_timer tidA (timers wa)\<rparr>)) (tick wA) \<and>
         now (tick wA) = now (run_callback (ClearThrottle c) (wa\<lparr>timers := remove_timer tidA (timers wa)\<rparr>))"
      using tick_own [OF aA ownA] by auto
    define wr where "wr = wa\<lparr>timers := remove_timer tidA (timers wa)\<rparr>"
    define wb where "wb = run_callback (ClearThrottle c) wr"
    have ar: "apart k None (Some c) {} wr"
      unfolding wr_def by (rule release_own [OF undisturbed_apart [OF ua]])
    have rr: "runs_of k wr = runs_of k wA"
      using undisturbed_runs [OF ua] by (simp add: wr_def runs_of_def)
    have ab: "apart k None (Some c) {} wb" and rb: "runs_of k wb = runs_of k wr"
        and ob: "\<not> inThrottle wb c"
      using own_run_throttle [OF ar, of c] by (simp_all add: wb_def)
    have ut: "undisturbed k None (Some c) {} wb (tick wA)"
      using fin ab by (simp add: wb_def wr_def)
    have at: "apart k None (Some c) {} (tick wA)" by (rule undisturbed_apart [OF ut])
    have rt: "runs_of k (tick wA) = runs_of k w"
      using undisturbed_runs [OF ut] rb rr rA by simp
    have ot: "\<not> inThrottle (tick wA) c" using undisturbed_flag [OF ut] ob by simp
    have ue: "undisturbed k None (Some c) {} (tick wA) (advance b (tick wA))"
      using advance_foreign [OF at, of b] by simp
    have e: "advance n w = advance b (tick wA)"
      using advance_add [of a0 "Suc b" w] n by (simp add: wA_def)
    have "thr_state k c None (advance n w) \<and> runs_of k (advance n w) = runs_of k w"
      using undisturbed_apart [OF ue] undisturbed_runs [OF ue] undisturbed_flag [OF ue] rt ot
      by (simp add: e thr_state_def)
    then show ?thesis using Some True by simp
  qed
qed

lemma play_throttle:
  assumes "thr_state k c p w" and "\<forall>a \<in> set s. act_ok k None (Some c) a"
  shows "runs_of k (play (Throttle c (Orig f) l) s w) = runs_of k w @ throttle_spec (timer_delay l) f s p"
  using assms
proof (induction s arbitrary: p w)
  case Nil
  show ?case by simp
next
  case (Cons a s)
  have rest: "\<forall>a \<in> set s. act_ok k None (Some c) a" using Cons.prems(2) by simp
  show ?case
  proof (cases a)
    case (Wait n)
    show ?thesis
    proof (cases p)
      case None
      then show ?thesis
        using thr_wait [OF Cons.prems(1), of n] Cons.IH [of None "advance n w"] rest Wait by simp
    next
      case (Some r)
      show ?thesis
      proof (cases "r \<le> n")
        case True
        then show ?thesis
          using thr_wait [OF Cons.prems(1), of n] Cons.IH [of None "advance n w"] rest Wait Some
          by simp
      next
        case False
        then show ?thesis
          using thr_wait [OF Cons.prems(1), of n] Cons.IH [of "Some (r - n)" "advance n w"]
            rest Wait Some
          by simp
      qed
    qed
  next
    case (Invoke x)
    then have x: "trigger_md (metadata x) = k" using Cons.prems(2) by simp
    show ?thesis
    proof (cases p)
      case None
      then show ?thesis
        using thr_invoke [OF Cons.prems(1) x, of f l]
          Cons.IH [of "if isl (f x) then None else Some (timer_delay l)"
                      "snd (call_exec (Throttle c (Orig f) l) x w)"] rest Invoke
        by simp
    next
      case (Some r)
      then show ?thesis
        using thr_invoke [OF Cons.prems(1) x, of f l]
          Cons.IH [of "Some r" "snd (call_exec (Throttle c (Orig f) l) x w)"] rest Invoke
        by simp
    qed
  next
    case (Other g y)
    then have "\<not> touches None (Some c) g" and "trigger_md (metadata y) \<noteq> k"
      using Cons.prems(2) by simp_all
    then show ?thesis
      using thr_other [OF Cons.prems(1), of g y] Cons.IH [of p "snd (call_exec g y w)"] rest Other
      by simp
  qed
qed

subsection \<open>Debounce\<close>

text \<open>
  C7 as stated fails for a delay above 2147483647 ms, which the runtime sets to 1 ms. With
  \<open>debounce(fn, 2147483648)\<close>, one invocation and 1 ms later \<open>fn\<close> has run, although
  no 2147483648 ms have passed without an invocation; debounce as the claim words it, with
  that delay, has run nothing by then.
\<close>

theorem debounce_delay_above_int32_runs_after_1ms:
  "runs_of ''a'' (play (fst (debounce (Orig returns_void) 2147483648 (new_engine no_random)))
      [Invoke (ctx_a 1), Wait 1] (snd (debounce (Orig returns_void) 2147483648 (new_engine no_random)))) =
     [ctx_a 1] \<and>
   debounce_spec 2147483648 [Invoke (ctx_a 1), Wait 1] None = []"
  by (simp add: runs_of_def ctx_a_def scenario eng)

text \<open>
  C7, amended. Take the closure returned by \<open>debounce(fn, d)\<close>, for any \<open>fn\<close> and
  \<open>d\<close>, and any world in which none of its timers is pending: no pending timer calls a
  function on its \<open>timeoutId\<close> cell or carries a context of its action \<open>k\<close>; other
  timers and other closures, debounced and throttled, may be there, in a timer table as
  \<open>setTimeout\<close> keeps it (\<open>reachable_ids_ok\<close>). Run any script of waits,
  invocations of the closure and calls of other stored functions for other actions. Then
  \<open>fn\<close> runs exactly as the specification's debounce says: each invocation resets the
  pending timer, \<open>fn\<close> runs once no further invocation has occurred for the delay, and
  with the arguments of the last invocation. The delay is \<open>d\<close> ms when
  \<open>1 \<le> d \<le> 2147483647\<close> and 1 ms otherwise, as the runtime treats it.
\<close>

theorem debounce_runs_last_call_after_quiet_period:
  assumes "apart k (Some (next_cell w0)) None {} w"
    and "\<forall>a \<in> set s. act_ok k (Some (next_cell w0)) None a"
  shows "runs_of k (play (fst (debounce (Orig f) d w0)) s w) =
           runs_of k w @ debounce_spec (if 1 \<le> d \<and> d \<le> 2147483647 then d else 1) s None"
proof -
  have c: "fst (debounce (Orig f) d w0) = Debounce (next_cell w0) (Orig f) d"
    by (simp add: debounce_def)
  have t: "timer_delay d = (if 1 \<le> d \<and> d \<le> 2147483647 then d else 1)"
    by (simp add: timer_delay_def)
  have "deb_state k (next_cell w0) f None w" using assms(1) by (simp add: deb_state_def)
  then show ?thesis using play_debounce [OF _ assms(2), where d = d] by (simp add: c t)
qed

text \<open>
  Five invocations within 50 ms of \<open>debounce(fn, 100)\<close>, with a second debounce closure
  called in between: 99 ms after the fifth invocation \<open>fn\<close> has not run, 1 ms later it
  has run once, with the arguments of the fifth, and never again. The second closure loses
  nothing either: its second call came 20 ms after its first and is the one that ran.
\<close>

theorem debounce_runs_last_call_after_quiet_period_witness:
  "runs_of ''a'' (play deb_a (five_in_50ms deb_b @ [Wait 99]) two_debounced) = [] \<and>
   runs_of ''a'' (play deb_a (five_in_50ms deb_b @ [Wait 99, Wait 1, Wait 200]) two_debounced) = [ctx_a 5] \<and>
   runs_of ''b'' (play deb_a (five_in_50ms deb_b @ [Wait 99, Wait 1, Wait 200]) two_debounced) = [ctx_b 2]"
proof -
  define w1 where "w1 = snd (debounce (Orig returns_void) 100 (new_engine no_random))"
  define mirrored where "mirrored =
     [Invoke (ctx_b 1), Other deb_a (ctx_a 1), Wait 10, Other deb_a (ctx_a 2), Wait 10, Other deb_a (ctx_a 3),
      Invoke (ctx_b 2), Wait 10, Other deb_a (ctx_a 4), Wait 10, Other deb_a (ctx_a 5), Wait 99, Wait 1, Wait 200]"
  have a: "apart ''a'' (Some (next_cell (new_engine no_random))) None {} two_debounced"
    by (simp add: apart_def ids_ok_def two_debounced_def debounce_def new_engine_def)
  have b: "apart ''b'' (Some (next_cell w1)) None {} two_debounced"
    by (simp add: apart_def ids_ok_def two_debounced_def w1_def debounce_def new_engine_def)
  have s: "\<forall>a \<in> set (five_in_50ms deb_b @ [Wait 99, Wait 1, Wait 200]).
             act_ok ''a'' (Some (next_cell (new_engine no_random))) None a"
    by (simp add: five_in_50ms_def deb_b_def debounce_def new_engine_def ctx_a_def ctx_b_def mk_context_def)
  have s': "\<forall>a \<in> set (five_in_50ms deb_b @ [Wait 99]).
             act_ok ''a'' (Some (next_cell (new_engine no_random))) None a"
    using s by simp
  have sb: "\<forall>a \<in> set mirrored. act_ok ''b'' (Some (next_cell w1)) None a"
    by (simp add: mirrored_def w1_def deb_a_def debounce_def new_engine_def ctx_a_def ctx_b_def mk_context_def)
  have r: "runs_of ''a'' two_debounced = []" "runs_of ''b'' two_debounced = []"
    by (simp_all add: runs_of_def two_debounced_def debounce_def new_engine_def)
  have m: "play deb_a (five_in_50ms deb_b @ [Wait 99, Wait 1, Wait 200]) two_debounced =
           play (fst (debounce (Orig returns_void) 100 w1)) mirrored two_debounced"
    by (simp add: five_in_50ms_def mirrored_def deb_b_def w1_def)
  have 1: "runs_of ''a'' (play deb_a (five_in_50ms deb_b @ [Wait 99]) two_debounced) = []"
    using debounce_runs_last_call_after_quiet_period [OF a s', of returns_void 100] r
    by (simp add: deb_a_def five_in_50ms_def)
  have 2: "runs_of ''a'' (play deb_a (five_in_50ms deb_b @ [Wait 99, Wait 1, Wait 200]) two_debounced) = [ctx_a 5]"
    using debounce_runs_last_call_after_quiet_period [OF a s, of returns_void 100] r
    by (simp add: deb_a_def five_in_50ms_def)
  have 3: "runs_of ''b'' (play deb_a (five_in_50ms deb_b @ [Wait 99, Wait 1, Wait 200]) two_debounced) = [ctx_b 2]"
  proof -
    have "runs_of ''b'' (play (fst (debounce (Orig returns_void) 100 w1)) mirrored two_debounced) =
            debounce_spec 100 mirrored None"
      using debounce_runs_last_call_after_quiet_period [OF b sb, of returns_void 100] r by simp
    moreover have "debounce_spec 100 mirrored None = [ctx_b 2]"
      by (simp add: mirrored_def)
    ultimately show ?thesis by (simp only: m)
  qed
  show ?thesis using 1 2 3 by simp
qed

subsection \<open>Throttle\<close>

text \<open>
  C8 as stated fails in two ways. The closure calls \<open>fn\<close> before it sets the flag and
  the timer, so an \<open>fn\<close> that throws starts no cooldown: of two invocations of
  \<open>throttle(fn, 100)\<close> in the same millisecond both run \<open>fn\<close>. And a limit above
  2147483647 ms is set to 1 ms by the runtime: with \<open>throttle(fn, 2147483648)\<close> an
  invocation 2 ms after the first runs \<open>fn\<close> again.
\<close>

theorem throttle_cooldown_not_started:
  "runs_of ''a'' (play (fst (throttle (Orig throws) 100 (new_engine no_random)))
      [Invoke (ctx_a 1), Invoke (ctx_a 2)] (snd (throttle (Orig throws) 100 (new_engine no_random)))) =
     [ctx_a 1, ctx_a 2] \<and>
   runs_of ''a'' (play (fst (throttle (Orig returns_void) 2147483648 (new_engine no_random)))
      [Invoke (ctx_a 1), Wait 2, Invoke (ctx_a 2)] (snd (throttle (Orig returns_void) 2147483648 (new_engine no_random)))) =
     [ctx_a 1, ctx_a 2]"
  by (simp add: runs_of_def ctx_a_def scenario eng numeral_2_eq_2)

text \<open>
  C8, amended. Take the closure returned by \<open>throttle(fn, l)\<close>, for any \<open>fn\<close> and
  \<open>l\<close>, and any world in which it is not cooling down: its flag is not set, no pending
  timer resets its flag or carries a context of its action \<open>k\<close>; other timers and other
  closures may be there. Run any script of waits, invocations of the closure and calls of
  other stored functions for other actions. Then \<open>fn\<close> runs exactly as the amended
  throttle says: an invocation outside a cooldown (so the first) runs \<open>fn\<close> at once;
  when \<open>fn\<close> returns without throwing a cooldown starts, of \<open>l\<close> ms when
  \<open>1 \<le> l \<le> 2147483647\<close> and of 1 ms otherwise, during which invocations are dropped
  and not queued; when \<open>fn\<close> throws no cooldown starts.
\<close>

theorem throttle_runs_then_drops_during_cooldown:
  assumes "apart k None (Some (next_cell w0)) {} w" and "\<not> inThrottle w (next_cell w0)"
    and "\<forall>a \<in> set s. act_ok k None (Some (next_cell w0)) a"
  shows "runs_of k (play (fst (throttle (Orig f) l w0)) s w) =
           runs_of k w @ throttle_spec (if 1 \<le> l \<and> l \<le> 2147483647 then l else 1) f s None"
proof -
  have c: "fst (throttle (Orig f) l w0) = Throttle (next_cell w0) (Orig f) l"
    by (simp add: throttle_def)
  have t: "timer_delay l = (if 1 \<le> l \<and> l \<le> 2147483647 then l else 1)"
    by (simp add: timer_delay_def)
  have "thr_state k (next_cell w0) None w" using assms(1,2) by (simp add: thr_state_def)
  then show ?thesis using play_throttle [OF _ assms(3), where f = f and l = l] by (simp add: c t)
qed

text \<open>
  Five invocations within 50 ms of \<open>throttle(fn, 100)\<close>, with a second throttle closure
  called in between: \<open>fn\<close> has run once, for the first invocation. A sixth invocation
  150 ms after the first runs it again. The second closure likewise ran its first call,
  dropped the one 20 ms later and ran the one at 150 ms.
\<close>

theorem throttle_runs_then_drops_during_cooldown_witness:
  "runs_of ''a'' (play thr_a (five_in_50ms thr_b) two_throttled) = [ctx_a 1] \<and>
   runs_of ''a'' (play thr_a (five_in_50ms thr_b @ [Wait 110, Other thr_b (ctx_b 3), Invoke (ctx_a 6)]) two_throttled) =
     [ctx_a 1, ctx_a 6] \<and>
   runs_of ''b'' (play thr_a (five_in_50ms thr_b @ [Wait 110, Other thr_b (ctx_b 3), Invoke (ctx_a 6)]) two_throttled) =
     [ctx_b 1, ctx_b 3]"
proof -
  define w1 where "w1 = snd (throttle (Orig returns_void) 100 (new_engine no_random))"
  define mirrored where "mirrored =
     [Invoke (ctx_b 1), Other thr_a (ctx_a 1), Wait 10, Other thr_a (ctx_a 2), Wait 10, Other thr_a (ctx_a 3),
      Invoke (ctx_b 2), Wait 10, Other thr_a (ctx_a 4), Wait 10, Other thr_a (ctx_a 5), Wait 110,
      Invoke (ctx_b 3), Other thr_a (ctx_a 6)]"
  have a: "apart ''a'' None (Some (next_cell (new_engine no_random))) {} two_throttled"
    by (simp add: apart_def ids_ok_def two_throttled_def throttle_def new_engine_def)
  have b: "apart ''b'' None (Some (next_cell w1)) {} two_throttled"
    by (simp add: apart_def ids_ok_def two_throttled_def w1_def throttle_def new_engine_def)
  have o: "\<not> inThrottle two_throttled (next_cell (new_engine no_random))"
    by (simp add: two_throttled_def throttle_def new_engine_def)
  have ob: "\<not> inThrottle two_throttled (next_cell w1)"
    by (simp add: two_throttled_def w1_def throttle_def new_engine_def)
  have s: "\<forall>a \<in> set (five_in_50ms thr_b @ [Wait 110, Other thr_b (ctx_b 3), Invoke (ctx_a 6)]).
             act_ok ''a'' None (Some (next_cell (new_engine no_random))) a"
    by (simp add: five_in_50ms_def thr_b_def throttle_def new_engine_def ctx_a_def ctx_b_def mk_context_def)
  have s': "\<forall>a \<in> set (five_in_50ms thr_b). act_ok ''a'' None (Some (next_cell (new_engine no_random))) a"
    using s by simp
  have sb: "\<forall>a \<in> set mirrored. act_ok ''b'' None (Some (next_cell w1)) a"
    by (simp add: mirrored_def w1_def thr_a_def throttle_def new_engine_def ctx_a_def ctx_b_def mk_context_def)
  have r: "runs_of ''a'' two_throttled = []" "runs_of ''b'' two_throttled = []"
    by (simp_all add: runs_of_def two_throttled_def throttle_def new_engine_def)
  have m: "play thr_a (five_in_50ms thr_b @ [Wait 110, Other thr_b (ctx_b 3), Invoke (ctx_a 6)]) two_throttled =
           play (fst (throttle (Orig returns_void) 100 w1)) mirrored two_throttled"
    by (simp add: five_in_50ms_def mirrored_def thr_b_def w1_def)
  have 1: "runs_of ''a'' (play thr_a (five_in_50ms thr_b) two_throttled) = [ctx_a 1]"
    using throttle_runs_then_drops_during_cooldown [OF a o s', of returns_void 100] r
    by (simp add: thr_a_def five_in_50ms_def returns_void_def)
  have 2: "runs_of ''a'' (play thr_a (five_in_50ms thr_b @ [Wait 110, Other thr_b (ctx_b 3), Invoke (ctx_a 6)]) two_throttled) =
     [ctx_a 1, ctx_a 6]"
    using throttle_runs_then_drops_during_cooldown [OF a o s, of returns_void 100] r
    by (simp add: thr_a_def five_in_50ms_def returns_void_def)
  have 3: "runs_of ''b'' (play thr_a (five_in_50ms thr_b @ [Wait 110, Other thr_b (ctx_b 3), Invoke (ctx_a 6)]) two_throttled) =
     [ctx_b 1, ctx_b 3]"
  proof -
    have "runs_of ''b'' (play (fst (throttle (Orig returns_void) 100 w1)) mirrored two_throttled) =
            throttle_spec 100 returns_void mirrored None"
      using throttle_runs_then_drops_during_cooldown [OF b ob sb, of returns_void 100] r by simp
    moreover have "throttle_spec 100 returns_void mirrored None = [ctx_b 1, ctx_b 3]"
      by (simp add: mirrored_def returns_void_def)
    ultimately show ?thesis by (simp only: m)
  qed
  show ?thesis using 1 2 3 by simp
qed

subsection \<open>The ways through processAction\<close>

lemma call_exec_trace: "\<exists>es. trace (snd (call_exec f ctx w)) = trace w @ es"
proof (induction f arbitrary: ctx w)
  case (Orig g)
  show ?case by simp
next
  case (Debounce c f d)
  show ?case by (simp add: clearTimeout_def setTimeout_def split_def Let_def split: option.splits)
next
  case (Throttle c f l)
  show ?case using Throttle.IH [of ctx w]
    by (cases "call_exec f ctx w"; cases "fst (call_exec f ctx w)")
       (auto simp: setTimeout_def split_def Let_def)
qed

lemma on_catch_trace: "\<exists>es. trace (snd (on_catch e k old new ts w)) = trace w @ es"
  by (simp add: on_catch_def Let_def split: option.splits)

lemma on_finally_snd:
  "snd (on_finally k r) = (snd r)\<lparr>executingActions := executingActions (snd r) - {k}\<rparr>"
  by (simp add: on_finally_def)

lemma processAction_skip:
  "config w = None \<or> \<not> truthy old \<Longrightarrow> processAction a old new ts w = (PFulfilled, w)"
  by (auto simp: processAction_def split: option.splits)

lemma processAction_trigger_throws:
  "config w = Some cfg \<Longrightarrow> truthy old \<Longrightarrow> trigger a old new ts = Inl e \<Longrightarrow>
   processAction a old new ts w =
     on_finally (the_id a) (on_catch e (the_id a) old new ts (w\<lparr>trace := trace w @ [TriggerCalled (the_id a)]\<rparr>))"
  by (simp add: processAction_def Let_def)

lemma processAction_trigger_false:
  "config w = Some cfg \<Longrightarrow> truthy old \<Longrightarrow> trigger a old new ts = Inr False \<Longrightarrow>
   processAction a old new ts w =
     on_finally (the_id a) (PFulfilled, w\<lparr>trace := trace w @ [TriggerCalled (the_id a)]\<rparr>)"
  by (simp add: processAction_def Let_def)

lemma processAction_condition_throws:
  "config w = Some cfg \<Longrightarrow> truthy old \<Longrightarrow> trigger a old new ts = Inr True \<Longrightarrow>
   check_conditions a (mk_context (providers_cfg cfg) (the_id a) old new ts) = Inl e \<Longrightarrow>
   processAction a old new ts w =
     on_finally (the_id a) (on_catch e (the_id a) old new ts (w\<lparr>trace := trace w @ [TriggerCalled (the_id a)]\<rparr>))"
  by (simp add: processAction_def Let_def)

lemma processAction_condition_false:
  "config w = Some cfg \<Longrightarrow> truthy old \<Longrightarrow> trigger a old new ts = Inr True \<Longrightarrow>
   check_conditions a (mk_context (providers_cfg cfg) (the_id a) old new ts) = Inr False \<Longrightarrow>
   processAction a old new ts w =
     on_finally (the_id a) (PFulfilled, w\<lparr>trace := trace w @ [TriggerCalled (the_id a)]\<rparr>)"
  by (simp add: processAction_def Let_def)

lemma processAction_prevented:
  "config w = Some cfg \<Longrightarrow> truthy old \<Longrightarrow> trigger a old new ts = Inr True \<Longrightarrow>
   check_conditions a (mk_context (providers_cfg cfg) (the_id a) old new ts) = Inr True \<Longrightarrow>
   preventDefault a \<and> the_id a \<in> executingActions w \<Longrightarrow>
   processAction a old new ts w =
     on_finally (the_id a) (PFulfilled, w\<lparr>trace := trace w @ [TriggerCalled (the_id a)]\<rparr>)"
  by (simp add: processAction_def Let_def)

lemma processAction_execute_throws:
  "config w = Some cfg \<Longrightarrow> truthy old \<Longrightarrow> trigger a old new ts = Inr True \<Longrightarrow>
   check_conditions a (mk_context (providers_cfg cfg) (the_id a) old new ts) = Inr True \<Longrightarrow>
   \<not> (preventDefault a \<and> the_id a \<in> executingActions w) \<Longrightarrow>
   call_exec (execute a) (mk_context (providers_cfg cfg) (the_id a) old new ts)
     (w\<lparr>executingActions := insert (the_id a) (executingActions w),
        trace := trace w @ [TriggerCalled (the_id a), ExecuteCalled (mk_context (providers_cfg cfg) (the_id a) old new ts)]\<rparr>)
     = (Inl e, w2) \<Longrightarrow>
   processAction a old new ts w = on_finally (the_id a) (on_catch e (the_id a) old new ts w2)"
  by (auto simp: processAction_def Let_def)

lemma processAction_execute_returns:
  "config w = Some cfg \<Longrightarrow> truthy old \<Longrightarrow> trigger a old new ts = Inr True \<Longrightarrow>
   check_conditions a (mk_context (providers_cfg cfg) (the_id a) old new ts) = Inr True \<Longrightarrow>
   \<not> (preventDefault a \<and> the_id a \<in> executingActions w) \<Longrightarrow>
   call_exec (execute a) (mk_context (providers_cfg cfg) (the_id a) old new ts)
     (w\<lparr>executingActions := insert (the_id a) (executingActions w),
        trace := trace w @ [TriggerCalled (the_id a), ExecuteCalled (mk_context (providers_cfg cfg) (the_id a) old new ts)]\<rparr>)
     = (Inr r, w2) \<Longrightarrow>
   processAction a old new ts w =
     (PPending,
      w2\<lparr>awaiting := awaiting w2 @
            [\<lparr>p_id = next_pending w2, p_action = the_id a, p_old = old, p_new = new, p_timestamp = ts,
              p_fate = (case r of RVoid \<Rightarrow> None | RPromise f \<Rightarrow> f)\<rparr>],
         next_pending := Suc (next_pending w2)\<rparr>)"
  by (auto simp: processAction_def Let_def)


text \<open>The seven ways through processAction, as one case rule.\<close>

lemma processAction_cases:
  assumes "config w = Some cfg" and "truthy old"
  obtains
    (trigger_throws) e where "trigger a old new ts = Inl e"
  | (trigger_false) "trigger a old new ts = Inr False"
  | (condition_throws) e where "trigger a old new ts = Inr True"
      "check_conditions a (mk_context (providers_cfg cfg) (the_id a) old new ts) = Inl e"
  | (condition_false) "trigger a old new ts = Inr True"
      "check_conditions a (mk_context (providers_cfg cfg) (the_id a) old new ts) = Inr False"
  | (prevented) "trigger a old new ts = Inr True"
      "check_conditions a (mk_context (providers_cfg cfg) (the_id a) old new ts) = Inr True"
      "preventDefault a \<and> the_id a \<in> executingActions w"
  | (execute_throws) e w2 where "trigger a old new ts = Inr True"
      "check_conditions a (mk_context (providers_cfg cfg) (the_id a) old new ts) = Inr True"
      "\<not> (preventDefault a \<and> the_id a \<in> executingActions w)"
      "call_exec (execute a) (mk_context (providers_cfg cfg) (the_id a) old new ts)
         (w\<lparr>executingActions := insert (the_id a) (executingActions w),
            trace := trace w @ [TriggerCalled (the_id a), ExecuteCalled (mk_context (providers_cfg cfg) (the_id a) old new ts)]\<rparr>)
         = (Inl e, w2)"
  | (execute_returns) r w2 where "trigger a old new ts = Inr True"
      "check_conditions a (mk_context (providers_cfg cfg) (the_id a) old new ts) = Inr True"
      "\<not> (preventDefault a \<and> the_id a \<in> executingActions w)"
      "call_exec (execute a) (mk_context (providers_cfg cfg) (the_id a) old new ts)
         (w\<lparr>executingActions := insert (the_id a) (executingActions w),
            trace := trace w @ [TriggerCalled (the_id a), ExecuteCalled (mk_context (providers_cfg cfg) (the_id a) old new ts)]\<rparr>)
         = (Inr r, w2)"
proof (cases "trigger a old new ts")
  case (Inl e)
  then show ?thesis using trigger_throws by auto
next
  case (Inr b)
  note t = this
  show ?thesis
  proof (cases b)
    case False
    then show ?thesis using t trigger_false by auto
  next
    case True
    note b = this
    show ?thesis
    proof (cases "check_conditions a (mk_context (providers_cfg cfg) (the_id a) old new ts)")
      case (Inl e)
      then show ?thesis using t b condition_throws by auto
    next
      case (Inr ok)
      note c = this
      show ?thesis
      proof (cases ok)
        case False
        then show ?thesis using t b c condition_false by auto
      next
        case True
        note ok = this
        show ?thesis
        proof (cases "preventDefault a \<and> the_id a \<in> executingActions w")
          case True
          then show ?thesis using t b c ok prevented by auto
        next
          case False
          note g = this
          obtain res w2 where r: "call_exec (execute a) (mk_context (providers_cfg cfg) (the_id a) old new ts)
         (w\<lparr>executingActions := insert (the_id a) (executingActions w),
            trace := trace w @ [TriggerCalled (the_id a), ExecuteCalled (mk_context (providers_cfg cfg) (the_id a) old new ts)]\<rparr>)
         = (res, w2)" by (meson surj_pair)
          show ?thesis
          proof (cases res)
            case (Inl e)
            then show ?thesis using t b c ok g r execute_throws by auto
          next
            case (Inr rv)
            then show ?thesis using t b c ok g r execute_returns by auto
          qed
        qed
      qed
    qed
  qed
qed

lemma processAction_frame:
  "config (snd (processAction a old new ts w)) = config w \<and>
   actions (snd (processAction a old new ts w)) = actions w \<and>
   isDestroyed (snd (processAction a old new ts w)) = isDestroyed w \<and>
   currentState (snd (processAction a old new ts w)) = currentState w \<and>
   previousState (snd (processAction a old new ts w)) = previousState w \<and>
   (\<forall>k. k \<noteq> the_id a \<longrightarrow>
      (k \<in> executingActions (snd (processAction a old new ts w))) = (k \<in> executingActions w))"
proof (cases "config w = None \<or> \<not> truthy old")
  case True
  then show ?thesis by (simp add: processAction_skip)
next
  case False
  then obtain cfg where c: "config w = Some cfg" and t: "truthy old" by auto
  let ?w0 = "w\<lparr>trace := trace w @ [TriggerCalled (the_id a)]\<rparr>"
  from c t show ?thesis
  proof (cases rule: processAction_cases [where a = a and new = new and ts = ts])
    case (trigger_throws e)
    then show ?thesis
      using on_catch_frame [of e "the_id a" old new ts ?w0]
      by (simp add: processAction_trigger_throws [OF c t] on_finally_snd)
  next
    case trigger_false
    then show ?thesis by (simp add: processAction_trigger_false [OF c t] on_finally_snd)
  next
    case (condition_throws e)
    then show ?thesis
      using on_catch_frame [of e "the_id a" old new ts ?w0]
      by (simp add: processAction_condition_throws [OF c t] on_finally_snd)
  next
    case condition_false
    then show ?thesis by (simp add: processAction_condition_false [OF c t] on_finally_snd)
  next
    case prevented
    then show ?thesis by (simp add: processAction_prevented [OF c t] on_finally_snd)
  next
    case (execute_throws e w2)
    have "snd (call_exec (execute a) (mk_context (providers_cfg cfg) (the_id a) old new ts)
         (w\<lparr>executingActions := insert (the_id a) (executingActions w),
            trace := trace w @ [TriggerCalled (the_id a), ExecuteCalled (mk_context (providers_cfg cfg) (the_id a) old new ts)]\<rparr>)) = w2"
      using execute_throws(4) by simp
    then have f: "config w2 = config w \<and> actions w2 = actions w \<and> isDestroyed w2 = isDestroyed w \<and>
        currentState w2 = currentState w \<and> previousState w2 = previousState w \<and>
        executingActions w2 = insert (the_id a) (executingActions w)"
      using call_exec_frame [of "execute a" "mk_context (providers_cfg cfg) (the_id a) old new ts"
         "w\<lparr>executingActions := insert (the_id a) (executingActions w),
            trace := trace w @ [TriggerCalled (the_id a), ExecuteCalled (mk_context (providers_cfg cfg) (the_id a) old new ts)]\<rparr>"]
      by simp
    show ?thesis
      using f on_catch_frame [of e "the_id a" old new ts w2]
      by (simp add: processAction_execute_throws [OF c t execute_throws] on_finally_snd)
  next
    case (execute_returns r w2)
    have "snd (call_exec (execute a) (mk_context (providers_cfg cfg) (the_id a) old new ts)
         (w\<lparr>executingActions := insert (the_id a) (executingActions w),
            trace := trace w @ [TriggerCalled (the_id a), ExecuteCalled (mk_context (providers_cfg cfg) (the_id a) old new ts)]\<rparr>)) = w2"
      using execute_returns(4) by simp
    then have f: "config w2 = config w \<and> actions w2 = actions w \<and> isDestroyed w2 = isDestroyed w \<and>
        currentState w2 = currentState w \<and> previousState w2 = previousState w \<and>
        executingActions w2 = insert (the_id a) (executingActions w)"
      using call_exec_frame [of "execute a" "mk_context (providers_cfg cfg) (the_id a) old new ts"
         "w\<lparr>executingActions := insert (the_id a) (executingActions w),
            trace := trace w @ [TriggerCalled (the_id a), ExecuteCalled (mk_context (providers_cfg cfg) (the_id a) old new ts)]\<rparr>"]
      by simp
    show ?thesis
      using f by (simp add: processAction_execute_returns [OF c t execute_returns])
  qed
qed

lemma processAction_events:
  assumes c: "config w = Some cfg" and t: "truthy old"
  shows "\<exists>es. trace (snd (processAction a old new ts w)) = trace w @ es \<and>
           TriggerCalled (the_id a) \<in> set es \<and>
           (trigger a old new ts = Inr True \<and>
            check_conditions a (mk_context (providers_cfg cfg) (the_id a) old new ts) = Inr True \<and>
            \<not> (preventDefault a \<and> the_id a \<in> executingActions w) \<longrightarrow>
            ExecuteCalled (mk_context (providers_cfg cfg) (the_id a) old new ts) \<in> set es)"
proof -
  let ?w0 = "w\<lparr>trace := trace w @ [TriggerCalled (the_id a)]\<rparr>"
  let ?ctx = "mk_context (providers_cfg cfg) (the_id a) old new ts"
  let ?w1 = "w\<lparr>executingActions := insert (the_id a) (executingActions w),
            trace := trace w @ [TriggerCalled (the_id a), ExecuteCalled ?ctx]\<rparr>"
  from c t show ?thesis
  proof (cases rule: processAction_cases [where a = a and new = new and ts = ts])
    case (trigger_throws e)
    then show ?thesis
      using on_catch_trace [of e "the_id a" old new ts ?w0]
      by (auto simp: processAction_trigger_throws [OF c t] on_finally_snd)
  next
    case trigger_false
    then show ?thesis by (simp add: processAction_trigger_false [OF c t] on_finally_snd)
  next
    case (condition_throws e)
    then show ?thesis
      using on_catch_trace [of e "the_id a" old new ts ?w0]
      by (auto simp: processAction_condition_throws [OF c t] on_finally_snd)
  next
    case condition_false
    then show ?thesis by (simp add: processAction_condition_false [OF c t] on_finally_snd)
  next
    case prevented
    then show ?thesis by (simp add: processAction_prevented [OF c t] on_finally_snd)
  next
    case (execute_throws e w2)
    obtain es where es: "trace w2 = trace ?w1 @ es"
      using call_exec_trace [of "execute a" ?ctx ?w1] execute_throws(4) by auto
    obtain es' where es': "trace (snd (on_catch e (the_id a) old new ts w2)) = trace w2 @ es'"
      using on_catch_trace [of e "the_id a" old new ts w2] by auto
    have "trace (snd (processAction a old new ts w)) =
            trace w @ ([TriggerCalled (the_id a), ExecuteCalled ?ctx] @ es @ es')"
      using es es' by (simp add: processAction_execute_throws [OF c t execute_throws] on_finally_snd)
    then show ?thesis by (intro exI [of _ "[TriggerCalled (the_id a), ExecuteCalled ?ctx] @ es @ es'"]) simp
  next
    case (execute_returns r w2)
    obtain es where es: "trace w2 = trace ?w1 @ es"
      using call_exec_trace [of "execute a" ?ctx ?w1] execute_returns(4) by auto
    have "trace (snd (processAction a old new ts w)) =
            trace w @ ([TriggerCalled (the_id a), ExecuteCalled ?ctx] @ es)"
      using es by (simp add: processAction_execute_returns [OF c t execute_returns])
    then show ?thesis by (intro exI [of _ "[TriggerCalled (the_id a), ExecuteCalled ?ctx] @ es"]) simp
  qed
qed

lemma processAction_trace: "\<exists>es. trace (snd (processAction a old new ts w)) = trace w @ es"
proof (cases "config w = None \<or> \<not> truthy old")
  case True
  then show ?thesis by (simp add: processAction_skip)
next
  case False
  then obtain cfg where "config w = Some cfg" and "truthy old" by auto
  then show ?thesis using processAction_events [of w cfg old a new ts] by blast
qed

lemma process_all_frame:
  "config (snd (process_all as old new ts w)) = config w \<and>
   actions (snd (process_all as old new ts w)) = actions w \<and>
   isDestroyed (snd (process_all as old new ts w)) = isDestroyed w \<and>
   currentState (snd (process_all as old new ts w)) = currentState w \<and>
   previousState (snd (process_all as old new ts w)) = previousState w"
proof (induction as arbitrary: w)
  case Nil
  show ?case by simp
next
  case (Cons a as)
  show ?case
    using Cons.IH [of "snd (processAction a old new ts w)"] processAction_frame [of a old new ts w]
    by (simp add: split_def Let_def)
qed

lemma process_all_trace: "\<exists>es. trace (snd (process_all as old new ts w)) = trace w @ es"
proof (induction as arbitrary: w)
  case Nil
  show ?case by simp
next
  case (Cons a as)
  obtain es1 where e1: "trace (snd (processAction a old new ts w)) = trace w @ es1"
    using processAction_trace by blast
  obtain es2 where "trace (snd (process_all as old new ts (snd (processAction a old new ts w)))) =
      trace (snd (processAction a old new ts w)) @ es2"
    using Cons.IH by blast
  then show ?case using e1 by (simp add: split_def Let_def)
qed

subsection \<open>One update, all actions\<close>

lemma process_all_events:
  assumes "config w = Some cfg" and "truthy old" and "distinct (map the_id as)" and "a \<in> set as"
  shows "\<exists>es. trace (snd (process_all as old new ts w)) = trace w @ es \<and>
           TriggerCalled (the_id a) \<in> set es \<and>
           (trigger a old new ts = Inr True \<and>
            check_conditions a (mk_context (providers_cfg cfg) (the_id a) old new ts) = Inr True \<and>
            \<not> (preventDefault a \<and> the_id a \<in> executingActions w) \<longrightarrow>
            ExecuteCalled (mk_context (providers_cfg cfg) (the_id a) old new ts) \<in> set es)"
  using assms
proof (induction as arbitrary: w)
  case Nil
  then show ?case by simp
next
  case (Cons b as)
  define w1 where "w1 = snd (processAction b old new ts w)"
  have split: "snd (process_all (b # as) old new ts w) = snd (process_all as old new ts w1)"
    by (simp add: w1_def split_def Let_def)
  show ?case
  proof (cases "a = b")
    case True
    obtain es1 where e1: "trace w1 = trace w @ es1" "TriggerCalled (the_id a) \<in> set es1"
        "trigger a old new ts = Inr True \<and>
         check_conditions a (mk_context (providers_cfg cfg) (the_id a) old new ts) = Inr True \<and>
         \<not> (preventDefault a \<and> the_id a \<in> executingActions w) \<longrightarrow>
         ExecuteCalled (mk_context (providers_cfg cfg) (the_id a) old new ts) \<in> set es1"
      using processAction_events [OF Cons.prems(1,2), of a new ts] True w1_def by auto
    obtain es2 where e2: "trace (snd (process_all as old new ts w1)) = trace w1 @ es2"
      using process_all_trace by blast
    have "trace (snd (process_all (b # as) old new ts w)) = trace w @ (es1 @ es2)"
      using split e1(1) e2 by simp
    then show ?thesis using e1(2,3) by (intro exI [of _ "es1 @ es2"]) auto
  next
    case False
    then have a: "a \<in> set as" using Cons.prems(4) by simp
    then have "the_id a \<in> the_id ` set as" by (rule imageI)
    moreover have "the_id b \<notin> the_id ` set as" using Cons.prems(3) by simp
    ultimately have ne: "the_id a \<noteq> the_id b" by metis
    have c1: "config w1 = Some cfg"
      using processAction_frame [of b old new ts w] Cons.prems(1) by (simp add: w1_def)
    have m: "(the_id a \<in> executingActions w1) = (the_id a \<in> executingActions w)"
      using processAction_frame [of b old new ts w] ne by (simp add: w1_def)
    obtain es1 where e1: "trace w1 = trace w @ es1"
      using processAction_trace [of b old new ts w] w1_def by auto
    obtain es2 where e2: "trace (snd (process_all as old new ts w1)) = trace w1 @ es2"
        "TriggerCalled (the_id a) \<in> set es2"
        "trigger a old new ts = Inr True \<and>
         check_conditions a (mk_context (providers_cfg cfg) (the_id a) old new ts) = Inr True \<and>
         \<not> (preventDefault a \<and> the_id a \<in> executingActions w1) \<longrightarrow>
         ExecuteCalled (mk_context (providers_cfg cfg) (the_id a) old new ts) \<in> set es2"
      using Cons.IH [OF c1 Cons.prems(2) _ a] Cons.prems(3) by auto
    have "trace (snd (process_all (b # as) old new ts w)) = trace w @ (es1 @ es2)"
      using split e1 e2(1) by simp
    then show ?thesis using e2(2,3) m by (intro exI [of _ "es1 @ es2"]) auto
  qed
qed

lemma wf_actions_ids:
  assumes "wf_actions w"
  shows "map the_id (map snd (actions w)) = map fst (actions w)"
  using assms by (auto simp: wf_actions_def the_id_def)

text \<open>
  C4. On a configured engine (not destroyed) \<open>updateState\<close> returns a promise that is
  never rejected, whatever the callbacks do: every \<open>processAction\<close> turns a failure
  into the state of its own promise and \<open>Promise.allSettled\<close> does not reject. And
  every registered action is processed, whatever the other actions do (nothing is assumed
  about them: they may throw from \<open>trigger\<close>, a condition or \<open>execute\<close>): with a
  truthy old state, the trigger of each registered action \<open>k\<close> is called during the
  update, and if its trigger and conditions pass and the re-entry guard does not hold it
  back, its \<open>execute\<close> is called with the context of this update.
\<close>

theorem updateState_never_rejects_and_processes_every_action:
  assumes "\<not> isDestroyed w" and "config w = Some cfg" and "truthy (currentState w)"
    and "wf_actions w" and "(k, a) \<in> set (actions w)"
  shows "fst (updateState v w) \<noteq> PRejected e \<and>
         TriggerCalled k \<in> set (new_events w (snd (updateState v w))) \<and>
         (trigger a (currentState w) v (now w) = Inr True \<and>
          check_conditions a (mk_context (providers_cfg cfg) k (currentState w) v (now w)) = Inr True \<and>
          \<not> (preventDefault a \<and> k \<in> executingActions w) \<longrightarrow>
          ExecuteCalled (mk_context (providers_cfg cfg) k (currentState w) v (now w))
            \<in> set (new_events w (snd (updateState v w))))"
proof -
  define w1 where "w1 = w\<lparr>previousState := currentState w, currentState := v\<rparr>"
  have u: "snd (updateState v w) = snd (process_all (map snd (actions w)) (currentState w) v (now w) w1)"
    using assms(1,2) by (simp add: updateState_def w1_def split_def Let_def)
  have k: "the_id a = k"
    using assms(4,5) by (auto simp: wf_actions_def the_id_def)
  have "distinct (map fst (actions w))" using assms(4) by (simp add: wf_actions_def)
  then have d: "distinct (map the_id (map snd (actions w)))"
    by (simp only: wf_actions_ids [OF assms(4)])
  have a: "a \<in> set (map snd (actions w))" using assms(5) by force
  have c1: "config w1 = Some cfg" using assms(2) by (simp add: w1_def)
  obtain es where es: "trace (snd (updateState v w)) = trace w1 @ es"
      "TriggerCalled (the_id a) \<in> set es"
      "trigger a (currentState w) v (now w) = Inr True \<and>
       check_conditions a (mk_context (providers_cfg cfg) (the_id a) (currentState w) v (now w)) = Inr True \<and>
       \<not> (preventDefault a \<and> the_id a \<in> executingActions w1) \<longrightarrow>
       ExecuteCalled (mk_context (providers_cfg cfg) (the_id a) (currentState w) v (now w)) \<in> set es"
    using process_all_events [OF c1 assms(3) d a, of v "now w"] u by auto
  have n: "new_events w (snd (updateState v w)) = es"
    using es(1) by (simp add: new_events_def w1_def)
  have r: "fst (updateState v w) \<noteq> PRejected e"
    by (simp add: updateState_def allSettled_def split_def Let_def)
  have x: "executingActions w1 = executingActions w" by (simp add: w1_def)
  show ?thesis using r es(2,3) unfolding n k x by blast
qed

theorem updateState_never_rejects_and_processes_every_action_witness:
  "fst (updateState (JNum 2) (run [Configure two_actions] (new_engine no_random))) = PPending \<and>
   reported (trace (snd (updateState (JNum 2) (run [Configure two_actions] (new_engine no_random))))) = [] \<and>
   new_events (run [Configure two_actions] (new_engine no_random))
       (snd (updateState (JNum 2) (run [Configure two_actions] (new_engine no_random)))) =
     [TriggerCalled ''a'', ExecuteCalled (mk_context [] ''a'' (JNum 1) (JNum 2) 0),
      FuncRan (mk_context [] ''a'' (JNum 1) (JNum 2) 0),
      TriggerCalled ''b'', ExecuteCalled (mk_context [] ''b'' (JNum 1) (JNum 2) 0),
      FuncRan (mk_context [] ''b'' (JNum 1) (JNum 2) 0)] \<and>
   ExecuteCalled (mk_context [] ''b'' (JNum 1) (JNum 2) 0) \<in>
     set (new_events (run [Configure two_actions] (new_engine no_random))
       (snd (updateState (JNum 2) (run [Configure two_actions] (new_engine no_random)))))"
proof -
  define w where "w = run [Configure two_actions] (new_engine no_random)"
  have w: "w = (new_engine no_random)\<lparr>config := Some two_actions, currentState := JNum 1,
      actions := [(''a'', plain_action ''a'' always throws False), (''b'', plain_action ''b'' always returns_void False)]\<rparr>"
    by (simp add: w_def two_actions_def scenario eng)
  have h1: "\<not> isDestroyed w" by (simp add: w new_engine_def)
  have h2: "config w = Some two_actions" by (simp add: w)
  have h3: "truthy (currentState w)" by (simp add: w)
  have h4: "wf_actions w" by (simp add: w wf_actions_def plain_action_def)
  have h5: "(''b'', plain_action ''b'' always returns_void False) \<in> set (actions w)" by (simp add: w)
  have p: "trigger (plain_action ''b'' always returns_void False) (currentState w) (JNum 2) (now w) = Inr True \<and>
          check_conditions (plain_action ''b'' always returns_void False)
            (mk_context (providers_cfg two_actions) ''b'' (currentState w) (JNum 2) (now w)) = Inr True \<and>
          \<not> (preventDefault (plain_action ''b'' always returns_void False) \<and> ''b'' \<in> executingActions w)"
    by (simp add: w plain_action_def always_def check_conditions_def new_engine_def)
  have e1: "fst (updateState (JNum 2) w) = PPending"
    by (simp add: w two_actions_def scenario eng)
  have e2: "reported (trace (snd (updateState (JNum 2) w))) = []"
    by (simp add: w two_actions_def scenario eng)
  have e3: "new_events w (snd (updateState (JNum 2) w)) =
     [TriggerCalled ''a'', ExecuteCalled (mk_context [] ''a'' (JNum 1) (JNum 2) 0),
      FuncRan (mk_context [] ''a'' (JNum 1) (JNum 2) 0),
      TriggerCalled ''b'', ExecuteCalled (mk_context [] ''b'' (JNum 1) (JNum 2) 0),
      FuncRan (mk_context [] ''b'' (JNum 1) (JNum 2) 0)]"
    by (simp add: w two_actions_def new_events_def scenario eng)
  have e4: "ExecuteCalled (mk_context [] ''b'' (JNum 1) (JNum 2) 0) \<in>
     set (new_events w (snd (updateState (JNum 2) w)))"
    using updateState_never_rejects_and_processes_every_action [OF h1 h2 h3 h4 h5, of "JNum 2"] p
    by (simp add: w two_actions_def plain_config_def new_engine_def)
  show ?thesis using e1 e2 e3 e4 unfolding w_def by blast
qed

subsection \<open>Reported errors\<close>

lemma reported_append: "reported (xs @ ys) = reported xs @ reported ys"
  by (induction xs rule: reported.induct) simp_all

lemma call_exec_reported: "reported (trace (snd (call_exec f ctx w))) = reported (trace w)"
proof (induction f arbitrary: ctx w)
  case (Orig g)
  show ?case by (simp add: reported_append)
next
  case (Debounce c f d)
  show ?case by (simp add: clearTimeout_def setTimeout_def split_def Let_def split: option.splits)
next
  case (Throttle c f l)
  show ?case using Throttle.IH [of ctx w]
    by (cases "call_exec f ctx w"; cases "fst (call_exec f ctx w)")
       (auto simp: setTimeout_def split_def Let_def)
qed

lemma run_callback_reported: "reported (trace (run_callback cb w)) = reported (trace w)"
proof (cases cb)
  case (CallFunc f ctx)
  show ?thesis using call_exec_reported [of f ctx w]
    by (cases "call_exec f ctx w")
       (auto simp: run_callback_def CallFunc reported_append split: sum.splits retval.splits option.splits)
next
  case (ClearThrottle c)
  then show ?thesis by (simp add: run_callback_def)
qed

lemma fire_reported: "reported (trace (fire is w)) = reported (trace w)"
proof (induction "is" arbitrary: w)
  case Nil
  show ?case by simp
next
  case (Cons i rest)
  show ?case
  proof (cases "find (\<lambda>t. fst t = i) (timers w)")
    case None
    then show ?thesis using Cons.IH [of w] by simp
  next
    case (Some t)
    then show ?thesis
      using Cons.IH [of "run_callback (snd (snd t)) (w\<lparr>timers := remove_timer i (timers w)\<rparr>)"]
            run_callback_reported [of "snd (snd t)" "w\<lparr>timers := remove_timer i (timers w)\<rparr>"]
      by simp
  qed
qed

lemma tick_reported: "reported (trace (tick w)) = reported (trace w)"
  using fire_reported [of _ "w\<lparr>now := Suc (now w)\<rparr>"] by (simp add: tick_def Let_def)

lemma on_catch_reported:
  assumes "config w = Some cfg" and "onError cfg = Some h"
  shows "length (reported (trace (snd (on_catch e k old new ts w)))) = Suc (length (reported (trace w)))"
  using assms by (simp add: on_catch_def Let_def reported_append split: option.splits)

lemma processAction_count:
  assumes c: "config w = Some cfg" and h: "onError cfg = Some h" and p: "plain (execute a)"
    and i: "pend_inv w"
  shows "length (reported (trace (snd (processAction a old new ts w)))) + rejecting (snd (processAction a old new ts w)) =
           length (reported (trace w)) + rejecting w +
           (if fails (providers_cfg cfg) (executingActions w) old new ts a then 1 else 0) \<and>
         pend_inv (snd (processAction a old new ts w))"
proof (cases "truthy old")
  case False
  then show ?thesis using i by (simp add: processAction_skip fails_def)
next
  case t: True
  let ?w0 = "w\<lparr>trace := trace w @ [TriggerCalled (the_id a)]\<rparr>"
  let ?ctx = "mk_context (providers_cfg cfg) (the_id a) old new ts"
  let ?w1 = "w\<lparr>executingActions := insert (the_id a) (executingActions w),
            trace := trace w @ [TriggerCalled (the_id a), ExecuteCalled ?ctx]\<rparr>"
  have c0: "config ?w0 = Some cfg" using c by simp
  obtain f where f: "execute a = Orig f" using p by (cases "execute a") auto
  from c t show ?thesis
  proof (cases rule: processAction_cases [where a = a and new = new and ts = ts])
    case (trigger_throws e)
    then show ?thesis
      using on_catch_reported [OF c0 h, of e "the_id a" old new ts]
            on_catch_frame [of e "the_id a" old new ts ?w0] i t
      by (simp add: processAction_trigger_throws [OF c t] on_finally_snd fails_def rejecting_def
          pend_inv_def reported_append)
  next
    case trigger_false
    then show ?thesis using i t
      by (simp add: processAction_trigger_false [OF c t] on_finally_snd fails_def rejecting_def
          pend_inv_def reported_append)
  next
    case (condition_throws e)
    then show ?thesis
      using on_catch_reported [OF c0 h, of e "the_id a" old new ts]
            on_catch_frame [of e "the_id a" old new ts ?w0] i t
      by (simp add: processAction_condition_throws [OF c t] on_finally_snd fails_def rejecting_def
          pend_inv_def reported_append)
  next
    case condition_false
    then show ?thesis using i t
      by (simp add: processAction_condition_false [OF c t] on_finally_snd fails_def rejecting_def
          pend_inv_def reported_append)
  next
    case prevented
    then show ?thesis using i t
      by (simp add: processAction_prevented [OF c t] on_finally_snd fails_def rejecting_def
          pend_inv_def reported_append)
  next
    case (execute_throws e w2)
    have w2: "w2 = ?w1\<lparr>trace := trace ?w1 @ [FuncRan ?ctx]\<rparr>" and fe: "f ?ctx = Inl e"
      using execute_throws(4) f by auto
    have c2: "config w2 = Some cfg" using c w2 by simp
    show ?thesis
      using on_catch_reported [OF c2 h, of e "the_id a" old new ts]
            on_catch_frame [of e "the_id a" old new ts w2] i t execute_throws(1,2,3) fe f
      by (simp add: processAction_execute_throws [OF c t execute_throws] on_finally_snd fails_def
          rejecting_def pend_inv_def reported_append w2)
  next
    case (execute_returns r w2)
    have w2: "w2 = ?w1\<lparr>trace := trace ?w1 @ [FuncRan ?ctx]\<rparr>" and fe: "f ?ctx = Inr r"
      using execute_returns(4) f by auto
    show ?thesis
      using i t execute_returns(1,2,3) fe f
      by (cases r)
         (auto simp: processAction_execute_returns [OF c t execute_returns] fails_def
          rejecting_def pend_inv_def reported_append w2)
  qed
qed


lemma fails_tracker:
  "(the_id a \<in> T) = (the_id a \<in> T') \<Longrightarrow> fails ps T old new ts a = fails ps T' old new ts a"
  by (auto simp: fails_def split: sum.splits)

lemma process_all_count:
  assumes "config w = Some cfg" and "onError cfg = Some h" and "\<forall>a \<in> set as. plain (execute a)"
    and "distinct (map the_id as)" and "pend_inv w"
  shows "length (reported (trace (snd (process_all as old new ts w)))) + rejecting (snd (process_all as old new ts w)) =
           length (reported (trace w)) + rejecting w +
           length (filter (fails (providers_cfg cfg) (executingActions w) old new ts) as) \<and>
         pend_inv (snd (process_all as old new ts w))"
  using assms
proof (induction as arbitrary: w)
  case Nil
  then show ?case by simp
next
  case (Cons b as)
  define w1 where "w1 = snd (processAction b old new ts w)"
  have sp: "snd (process_all (b # as) old new ts w) = snd (process_all as old new ts w1)"
    by (simp add: w1_def split_def Let_def)
  have b: "length (reported (trace w1)) + rejecting w1 =
           length (reported (trace w)) + rejecting w +
           (if fails (providers_cfg cfg) (executingActions w) old new ts b then 1 else 0)"
      and i1: "pend_inv w1"
    using processAction_count [OF Cons.prems(1,2) _ Cons.prems(5), of b old new ts] Cons.prems(3)
    by (simp_all add: w1_def)
  have c1: "config w1 = Some cfg"
    using processAction_frame [of b old new ts w] Cons.prems(1) by (simp add: w1_def)
  have rest: "length (reported (trace (snd (process_all as old new ts w1)))) + rejecting (snd (process_all as old new ts w1)) =
           length (reported (trace w1)) + rejecting w1 +
           length (filter (fails (providers_cfg cfg) (executingActions w1) old new ts) as)"
      and i2: "pend_inv (snd (process_all as old new ts w1))"
    using Cons.IH [OF c1 Cons.prems(2) _ _ i1] Cons.prems(3,4) by simp_all
  have same: "filter (fails (providers_cfg cfg) (executingActions w1) old new ts) as =
              filter (fails (providers_cfg cfg) (executingActions w) old new ts) as"
  proof (rule filter_cong [OF refl])
    fix a assume a: "a \<in> set as"
    then have "the_id a \<in> the_id ` set as" by (rule imageI)
    moreover have "the_id b \<notin> the_id ` set as" using Cons.prems(4) by simp
    ultimately have "the_id a \<noteq> the_id b" by metis
    then have "(the_id a \<in> executingActions w1) = (the_id a \<in> executingActions w)"
      using processAction_frame [of b old new ts w] by (simp add: w1_def)
    then show "fails (providers_cfg cfg) (executingActions w1) old new ts a =
               fails (providers_cfg cfg) (executingActions w) old new ts a"
      by (rule fails_tracker)
  qed
  show ?case unfolding sp using b rest i2 by (simp add: same)
qed

lemma reporting_pend_inv: "reporting w \<Longrightarrow> pend_inv w"
  by (simp add: reporting_def pend_inv_def)

lemma updateState_count:
  assumes "reporting w"
  shows "length (reported (trace (snd (updateState v w)))) + rejecting (snd (updateState v w)) =
           length (reported (trace w)) + rejecting w + failures [UpdateState v] w \<and>
         reporting (snd (updateState v w))"
proof -
  obtain cfg h where c: "config w = Some cfg" and h: "onError cfg = Some h"
    using assms by (auto simp: reporting_def pend_inv_def split: option.splits)
  show ?thesis
  proof (cases "isDestroyed w")
    case True
    then show ?thesis using assms c by (simp add: updateState_def)
  next
    case False
    define w1 where "w1 = w\<lparr>previousState := currentState w, currentState := v\<rparr>"
    define w2 where "w2 = snd (process_all (map snd (actions w)) (currentState w) v (now w) w1)"
    have u: "snd (updateState v w) = w2"
      using False c by (simp add: updateState_def w1_def w2_def split_def Let_def)
    have wf: "wf_actions w" using assms by (simp add: reporting_def pend_inv_def)
    have "distinct (map fst (actions w))" using wf by (simp add: wf_actions_def)
    then have d: "distinct (map the_id (map snd (actions w)))"
      by (simp only: wf_actions_ids [OF wf])
    have p: "\<forall>a \<in> set (map snd (actions w)). plain (execute a)"
      using assms by (auto simp: reporting_def pend_inv_def)
    have c1: "config w1 = Some cfg" using c by (simp add: w1_def)
    have i1: "pend_inv w1" using assms by (simp add: reporting_def pend_inv_def w1_def)
    have cnt: "length (reported (trace w2)) + rejecting w2 =
           length (reported (trace w1)) + rejecting w1 +
           length (filter (fails (providers_cfg cfg) (executingActions w1) (currentState w) v (now w))
             (map snd (actions w)))" and i2: "pend_inv w2"
      using process_all_count [OF c1 h p d i1, of "currentState w" v "now w"] by (simp_all add: w2_def)
    have fr: "config w2 = config w \<and> actions w2 = actions w"
      using process_all_frame [of "map snd (actions w)" "currentState w" v "now w" w1]
      by (simp add: w2_def w1_def)
    have r: "reporting w2"
      using assms fr i2 by (simp add: reporting_def pend_inv_def wf_actions_def)
    have "length (reported (trace w2)) + rejecting w2 =
           length (reported (trace w)) + rejecting w + failures [UpdateState v] w"
      using cnt False c by (simp add: w1_def rejecting_def)
    then show ?thesis using r by (simp add: u)
  qed
qed

lemma filter_out_found:
  assumes "distinct (map p_id ps)" and "find (\<lambda>p. p_id p = pid) ps = Some p"
  shows "length (filter P (filter (\<lambda>q. p_id q \<noteq> pid) ps)) + (if P p then 1 else 0) = length (filter P ps)"
  using assms
proof (induction ps)
  case Nil
  then show ?case by simp
next
  case (Cons q ps)
  show ?case
  proof (cases "p_id q = pid")
    case True
    then have q: "q = p" using Cons.prems(2) by simp
    have "pid \<notin> p_id ` set ps" using Cons.prems(1) True by auto
    then have "filter (\<lambda>q. p_id q \<noteq> pid) ps = ps"
      by (auto simp: filter_id_conv)
    then show ?thesis using True q by simp
  next
    case False
    then show ?thesis using Cons by simp
  qed
qed

lemma settle_count:
  assumes "reporting w"
  shows "length (reported (trace (settle pid w))) + rejecting (settle pid w) =
           length (reported (trace w)) + rejecting w \<and>
         reporting (settle pid w)"
proof (cases "find (\<lambda>p. p_id p = pid) (awaiting w)")
  case None
  then show ?thesis using assms by (simp add: settle_def)
next
  case (Some p)
  obtain cfg h where c: "config w = Some cfg" and h: "onError cfg = Some h"
    using assms by (auto simp: reporting_def pend_inv_def split: option.splits)
  define w1 where "w1 = w\<lparr>awaiting := filter (\<lambda>q. p_id q \<noteq> pid) (awaiting w)\<rparr>"
  have s: "settle pid w = snd (resume p w1)" using Some by (simp add: settle_def w1_def)
  have d: "distinct (map p_id (awaiting w))" using assms by (simp add: reporting_def pend_inv_def)
  have rj: "rejecting w1 + (if p_fate p \<noteq> None then 1 else 0) = rejecting w"
    using filter_out_found [OF d Some, of "\<lambda>p. p_fate p \<noteq> None"] by (simp add: rejecting_def w1_def)
  have r1: "reporting w1"
    using assms by (auto simp: reporting_def pend_inv_def w1_def wf_actions_def distinct_map_filter)
  have c1: "config w1 = Some cfg" using c by (simp add: w1_def)
  show ?thesis
  proof (cases "p_fate p")
    case None
    then show ?thesis using rj r1
      by (simp add: s resume_def on_finally_snd rejecting_def reporting_def pend_inv_def wf_actions_def w1_def)
  next
    case (Some e)
    let ?w2 = "snd (on_catch e (p_action p) (p_old p) (p_new p) (p_timestamp p) w1)"
    have f: "config ?w2 = config w1 \<and> actions ?w2 = actions w1 \<and> awaiting ?w2 = awaiting w1 \<and>
             next_pending ?w2 = next_pending w1"
      using on_catch_frame [of e "p_action p" "p_old p" "p_new p" "p_timestamp p" w1] by simp
    have n: "length (reported (trace ?w2)) = Suc (length (reported (trace w1)))"
      using on_catch_reported [OF c1 h] by simp
    have t1: "trace w1 = trace w" by (simp add: w1_def)
    show ?thesis using rj r1 f n Some
      by (simp add: s resume_def on_finally_snd rejecting_def reporting_def pend_inv_def wf_actions_def t1)
  qed
qed

lemma tick_count:
  assumes "reporting w"
  shows "length (reported (trace (tick w))) + rejecting (tick w) =
           length (reported (trace w)) + rejecting w \<and>
         reporting (tick w)"
  using assms tick_frame [of w]
  by (simp add: tick_reported rejecting_def reporting_def pend_inv_def wf_actions_def)

text \<open>
  C2, amended. Take an engine configured with an error callback whose actions are neither
  debounced nor throttled, and any sequence of updates, settlements of pending executions
  and timer ticks. Then the number of \<open>onError\<close> calls made during the run, plus the
  number of executions still pending whose promise will reject, equals the number of
  (action, update) pairs of the run that fail: the trigger or a condition threw, or they
  passed, the re-entry guard let the action through and \<open>execute\<close> threw or returned a
  promise that rejects. So every failure is reported once it has settled, exactly once,
  and nothing else is reported.
\<close>

theorem onError_once_per_failure:
  assumes "reporting w" and "\<forall>x \<in> set xs. env_op x"
  shows "length (reported (trace (run xs w))) + rejecting (run xs w) =
           length (reported (trace w)) + rejecting w + failures xs w"
  using assms
proof (induction xs arbitrary: w)
  case Nil
  show ?case by simp
next
  case (Cons x xs)
  have e: "env_op x" using Cons.prems(2) by simp
  have step: "length (reported (trace (step x w))) + rejecting (step x w) =
                length (reported (trace w)) + rejecting w + failures [x] w \<and> reporting (step x w)"
  proof (cases x)
    case (UpdateState v)
    then show ?thesis using updateState_count [OF Cons.prems(1), of v] by simp
  next
    case (Settle pid)
    then show ?thesis using settle_count [OF Cons.prems(1), of pid] by simp
  next
    case Tick
    then show ?thesis using tick_count [OF Cons.prems(1)] by simp
  qed (use e in simp_all)
  have f: "failures (x # xs) w = failures [x] w + failures xs (step x w)"
    by (cases x) simp_all
  have "length (reported (trace (run xs (step x w)))) + rejecting (run xs (step x w)) =
          length (reported (trace (step x w))) + rejecting (step x w) + failures xs (step x w)"
    using Cons.IH [of "step x w"] step Cons.prems(2) by simp
  then show ?case using step f by simp
qed

theorem onError_once_per_failure_witness:
  "failures [UpdateState (JNum 2), Settle 0, Settle 1, Tick] (run [Configure four_actions] (new_engine no_random)) = 3 \<and>
   rejecting (run [UpdateState (JNum 2), Settle 0, Settle 1, Tick] (run [Configure four_actions] (new_engine no_random))) = 0 \<and>
   length (reported (trace (run [UpdateState (JNum 2), Settle 0, Settle 1, Tick]
      (run [Configure four_actions] (new_engine no_random))))) = 3"
proof -
  define w where "w = run [Configure four_actions] (new_engine no_random)"
  have w: "w = (new_engine no_random)\<lparr>config := Some four_actions, currentState := JNum 1,
      actions := [(''a'', plain_action ''a'' always throws False), (''b'', plain_action ''b'' always rejects False),
        (''c'', plain_action ''c'' trigger_throws returns_void False), (''ok'', plain_action ''ok'' always returns_void False)]\<rparr>"
    by (simp add: w_def four_actions_def scenario eng)
  have h1: "reporting w"
    by (simp add: w reporting_def pend_inv_def wf_actions_def four_actions_def reporting_config_def plain_action_def new_engine_def)
  have h2: "\<forall>x \<in> set [UpdateState (JNum 2), Settle 0, Settle 1, Tick]. env_op x" by simp
  have f: "failures [UpdateState (JNum 2), Settle 0, Settle 1, Tick] w = 3"
    by (simp add: w four_actions_def fails_def scenario eng)
  have r: "rejecting (run [UpdateState (JNum 2), Settle 0, Settle 1, Tick] w) = 0"
    by (simp add: w four_actions_def rejecting_def scenario eng)
  have z: "length (reported (trace w)) + rejecting w = 0"
    by (simp add: w rejecting_def new_engine_def)
  have "length (reported (trace (run [UpdateState (JNum 2), Settle 0, Settle 1, Tick] w))) = 3"
    using onError_once_per_failure [OF h1 h2] f r z by simp
  then show ?thesis using f r unfolding w_def by blast
qed

text \<open>
  C2 as stated fails in both directions. First run: one action whose trigger throws; the
  error callback is called once although no \<open>execute\<close> was invoked, let alone threw.
  Second run: one action with \<open>debounce = 3\<close> whose \<open>execute\<close> throws; the update
  only starts the timer, the awaited call of the debounce closure settles normally, and
  when the timer fires 3 ms later \<open>execute\<close> runs and throws outside any \<open>try\<close>
  block: the error callback is never called.
\<close>

theorem onError_count_counterexample:
  "length (reported (trace (run [Configure (reporting_config (JNum 1) [plain_action ''t'' trigger_throws returns_void False]),
        UpdateState (JNum 2)] (new_engine no_random)))) = 1 \<and>
   executed (trace (run [Configure (reporting_config (JNum 1) [plain_action ''t'' trigger_throws returns_void False]),
        UpdateState (JNum 2)] (new_engine no_random))) = [] \<and>
   executed (trace (run [Configure (reporting_config (JNum 1) [debounced_action]),
        UpdateState (JNum 2), Tick, Tick, Tick, Settle 0] (new_engine no_random))) =
     [mk_context [] ''d'' (JNum 1) (JNum 2) 0] \<and>
   throws (mk_context [] ''d'' (JNum 1) (JNum 2) 0) = Inl (Error ''boom'') \<and>
   reported (trace (run [Configure (reporting_config (JNum 1) [debounced_action]),
        UpdateState (JNum 2), Tick, Tick, Tick, Settle 0] (new_engine no_random))) = [] \<and>
   awaiting (run [Configure (reporting_config (JNum 1) [debounced_action]),
        UpdateState (JNum 2), Tick, Tick, Tick, Settle 0] (new_engine no_random)) = []"
  by (simp add: debounced_action_def scenario eng)

subsection \<open>The action map of a reachable engine\<close>

text \<open>
  Whatever happens to a new engine, its action map has one entry per key and every stored
  action carries its key as id.
\<close>

lemma set_update_cases:
  "(k', v') \<in> set (AList.update k v al) \<Longrightarrow> (k', v') = (k, v) \<or> (k', v') \<in> set al"
  by (induction al) (auto split: if_splits)

lemma set_delete_subset: "x \<in> set (AList.delete k al) \<Longrightarrow> x \<in> set al"
  by (simp add: AList.delete_eq)

lemma addAction_wf: "wf_actions w \<Longrightarrow> wf_actions (addAction a w)"
  by (auto simp: wf_actions_def addAction_actions distinct_update dest!: set_update_cases)

lemma foldl_addAction_wf: "wf_actions w \<Longrightarrow> wf_actions (foldl (\<lambda>w' a. addAction a w') w as)"
  by (induction as arbitrary: w) (simp_all add: addAction_wf)

lemma settle_actions: "actions (settle pid w) = actions w"
  using on_catch_frame by (simp add: settle_def resume_def on_finally_def split: option.splits)

lemma step_wf_actions: "wf_actions w \<Longrightarrow> wf_actions (step x w)"
proof (cases x)
  case (Configure cfg)
  assume "wf_actions w"
  then have "wf_actions (w\<lparr>config := Some cfg, currentState := state_cfg cfg\<rparr>)"
    by (simp add: wf_actions_def)
  then show ?thesis using Configure \<open>wf_actions w\<close>
    by (simp add: configure_def foldl_addAction_wf)
next
  case (UpdateState v)
  assume "wf_actions w"
  moreover have "actions (snd (updateState v w)) = actions w"
    using process_all_frame [of "map snd (actions w)" "currentState w" v "now w"
        "w\<lparr>previousState := currentState w, currentState := v\<rparr>"]
    by (simp add: updateState_def split_def Let_def)
  ultimately show ?thesis using UpdateState by (simp add: wf_actions_def)
next
  case (AddAction a)
  assume "wf_actions w"
  then show ?thesis using AddAction by (simp add: addAction_wf)
next
  case (RemoveAction k)
  assume "wf_actions w"
  then show ?thesis using RemoveAction
    by (auto simp: wf_actions_def removeAction_def distinct_delete dest!: set_delete_subset)
next
  case Destroy
  then show ?thesis by (simp add: wf_actions_def destroy_def)
next
  case (Settle pid)
  assume "wf_actions w"
  then show ?thesis using Settle by (simp add: wf_actions_def settle_actions)
next
  case Tick
  assume "wf_actions w"
  then show ?thesis using Tick tick_frame [of w] by (simp add: wf_actions_def)
qed

lemma reachable_wf_actions: "wf_actions (run xs (new_engine rnd))"
proof -
  have "wf_actions w \<Longrightarrow> wf_actions (run xs w)" for w
    by (induction xs arbitrary: w) (simp_all add: step_wf_actions)
  moreover have "wf_actions (new_engine rnd)" by (simp add: wf_actions_def new_engine_def)
  ultimately show ?thesis by blast
qed

subsection \<open>The timer table of a reachable engine\<close>

text \<open>
  Whatever is done to a new engine, the timer table stays as \<open>setTimeout\<close> keeps it
  (\<open>ids_ok\<close>): that part of being apart holds in every world the engine can reach.
\<close>

lemma ids_ok_cong:
  "timers w' = timers w \<Longrightarrow> next_timer w' = next_timer w \<Longrightarrow> timeoutId w' = timeoutId w \<Longrightarrow>
   ids_ok w' = ids_ok w"
  by (simp add: ids_ok_def)

lemma setTimeout_ids_ok: "ids_ok w \<Longrightarrow> ids_ok (snd (setTimeout cb d w))"
  by (auto simp: ids_ok_def setTimeout_def less_Suc_eq)

lemma clearTimeout_ids_ok: "ids_ok w \<Longrightarrow> ids_ok (clearTimeout t w)"
  by (auto simp: ids_ok_def clearTimeout_def remove_timer_def distinct_map_filter split: option.splits)

lemma call_exec_ids_ok: "ids_ok w \<Longrightarrow> ids_ok (snd (call_exec g y w))"
proof (induction g arbitrary: w)
  case (Orig f)
  then show ?case by (simp add: ids_ok_def)
next
  case (Debounce c g d)
  define w1 where "w1 = clearTimeout (timeoutId w c) w"
  have 1: "ids_ok w1" unfolding w1_def by (rule clearTimeout_ids_ok [OF Debounce.prems])
  have 2: "ids_ok (snd (setTimeout (CallFunc g y) d w1))" by (rule setTimeout_ids_ok [OF 1])
  have "snd (call_exec (Debounce c g d) y w) =
          (snd (setTimeout (CallFunc g y) d w1))\<lparr>timeoutId :=
             (timeoutId (snd (setTimeout (CallFunc g y) d w1)))(c := Some (next_timer w1))\<rparr>"
    by (simp add: w1_def setTimeout_def Let_def)
  then show ?case using 2 by (auto simp: ids_ok_def setTimeout_def)
next
  case (Throttle c g l)
  have i: "ids_ok (snd (call_exec g y w))" by (rule Throttle.IH [OF Throttle.prems])
  show ?case
  proof (cases "inThrottle w c")
    case True
    then show ?thesis using Throttle.prems by simp
  next
    case False
    obtain r w1 where c: "call_exec g y w = (r, w1)" by (cases "call_exec g y w")
    then have i1: "ids_ok w1" using i by simp
    show ?thesis
    proof (cases r)
      case (Inl e)
      then show ?thesis using False c i1 by simp
    next
      case (Inr v)
      have "ids_ok (w1\<lparr>inThrottle := (inThrottle w1)(c := True)\<rparr>)"
        using i1 by (simp add: ids_ok_def)
      then have "ids_ok (snd (setTimeout (ClearThrottle c) l (w1\<lparr>inThrottle := (inThrottle w1)(c := True)\<rparr>)))"
        by (rule setTimeout_ids_ok)
      then show ?thesis using False c Inr by (simp add: split_def Let_def)
    qed
  qed
qed

lemma run_callback_ids_ok: "ids_ok w \<Longrightarrow> ids_ok (run_callback cb w)"
proof (cases cb)
  case (CallFunc g y)
  assume "ids_ok w"
  then have "ids_ok (snd (call_exec g y w))" by (rule call_exec_ids_ok)
  moreover have "ids_ok (run_callback cb w) = ids_ok (snd (call_exec g y w))"
    by (rule ids_ok_cong)
       (simp_all add: CallFunc run_callback_def split_def split: sum.splits retval.splits option.splits)
  ultimately show ?thesis by simp
next
  case (ClearThrottle c)
  assume "ids_ok w"
  then show ?thesis using ClearThrottle by (simp add: run_callback_def ids_ok_def)
qed

lemma fire_ids_ok: "ids_ok w \<Longrightarrow> ids_ok (fire is w)"
proof (induction "is" arbitrary: w)
  case Nil
  then show ?case by simp
next
  case (Cons i rest)
  show ?case
  proof (cases "find (\<lambda>t. fst t = i) (timers w)")
    case None
    then show ?thesis using Cons by simp
  next
    case (Some t)
    have "ids_ok (clearTimeout (Some i) w)" by (rule clearTimeout_ids_ok [OF Cons.prems])
    then have "ids_ok (run_callback (snd (snd t)) (w\<lparr>timers := remove_timer i (timers w)\<rparr>))"
      using run_callback_ids_ok by (simp add: clearTimeout_def)
    then show ?thesis using Some Cons.IH by simp
  qed
qed

lemma tick_ids_ok: "ids_ok w \<Longrightarrow> ids_ok (tick w)"
proof -
  assume "ids_ok w"
  then have "ids_ok (w\<lparr>now := Suc (now w)\<rparr>)" by (simp add: ids_ok_def)
  then show ?thesis unfolding tick_def Let_def by (rule fire_ids_ok)
qed

lemma on_catch_ids_ok: "ids_ok (snd (on_catch e k old new ts w)) = ids_ok w"
  by (rule ids_ok_cong) (simp_all add: on_catch_def Let_def split: option.splits)

lemma on_finally_ids_ok: "ids_ok (snd (on_finally k r)) = ids_ok (snd r)"
  by (simp add: on_finally_def ids_ok_def)

lemma processAction_ids_ok:
  assumes "ids_ok w"
  shows "ids_ok (snd (processAction a old new ts w))"
proof (cases "config w = None \<or> \<not> truthy old")
  case True
  then show ?thesis using assms by (simp add: processAction_skip)
next
  case False
  then obtain cfg where c: "config w = Some cfg" and t: "truthy old" by auto
  have w0: "ids_ok (w\<lparr>trace := trace w @ [TriggerCalled (the_id a)]\<rparr>)"
    using assms by (simp add: ids_ok_def)
  have w1: "ids_ok (w\<lparr>executingActions := insert (the_id a) (executingActions w),
        trace := trace w @ [TriggerCalled (the_id a), ExecuteCalled (mk_context (providers_cfg cfg) (the_id a) old new ts)]\<rparr>)"
    using assms by (simp add: ids_ok_def)
  from c t show ?thesis
  proof (cases rule: processAction_cases [where a = a and new = new and ts = ts])
    case (trigger_throws e)
    then show ?thesis using w0 c t
      by (simp add: processAction_trigger_throws on_finally_ids_ok on_catch_ids_ok)
  next
    case trigger_false
    then show ?thesis using w0 c t
      by (simp add: processAction_trigger_false on_finally_ids_ok)
  next
    case (condition_throws e)
    then show ?thesis using w0 c t
      by (simp add: processAction_condition_throws on_finally_ids_ok on_catch_ids_ok)
  next
    case condition_false
    then show ?thesis using w0 c t
      by (simp add: processAction_condition_false on_finally_ids_ok)
  next
    case prevented
    then show ?thesis using w0 c t
      by (simp add: processAction_prevented on_finally_ids_ok)
  next
    case (execute_throws e w2)
    have "ids_ok w2" using call_exec_ids_ok [OF w1, of "execute a" "mk_context (providers_cfg cfg) (the_id a) old new ts"] execute_throws(4) by simp
    then show ?thesis using execute_throws c t
      by (simp add: processAction_execute_throws on_finally_ids_ok on_catch_ids_ok)
  next
    case (execute_returns r w2)
    have "ids_ok w2" using call_exec_ids_ok [OF w1, of "execute a" "mk_context (providers_cfg cfg) (the_id a) old new ts"] execute_returns(4) by simp
    then show ?thesis using execute_returns c t
      by (simp add: processAction_execute_returns ids_ok_def)
  qed
qed

lemma process_all_ids_ok: "ids_ok w \<Longrightarrow> ids_ok (snd (process_all as old new ts w))"
proof (induction as arbitrary: w)
  case Nil
  then show ?case by simp
next
  case (Cons a as)
  show ?case
    using Cons.IH [OF processAction_ids_ok [OF Cons.prems, of a old new ts]]
    by (simp add: split_def Let_def)
qed

lemma updateState_ids_ok: "ids_ok w \<Longrightarrow> ids_ok (snd (updateState v w))"
proof -
  assume w: "ids_ok w"
  then have "ids_ok (w\<lparr>previousState := currentState w, currentState := v\<rparr>)"
    by (simp add: ids_ok_def)
  then show ?thesis using w process_all_ids_ok
    by (simp add: updateState_def split_def Let_def)
qed

lemma settle_ids_ok: "ids_ok w \<Longrightarrow> ids_ok (settle pid w)"
proof (cases "find (\<lambda>p. p_id p = pid) (awaiting w)")
  case None
  assume "ids_ok w"
  then show ?thesis using None by (simp add: settle_def)
next
  case (Some p)
  assume "ids_ok w"
  then have "ids_ok (w\<lparr>awaiting := filter (\<lambda>q. p_id q \<noteq> pid) (awaiting w)\<rparr>)"
    by (simp add: ids_ok_def)
  then show ?thesis using Some
    by (simp add: settle_def resume_def on_finally_ids_ok on_catch_ids_ok split: option.splits)
qed

lemma addAction_ids_ok: "ids_ok w \<Longrightarrow> ids_ok (addAction a w)"
  by (auto simp: ids_ok_def addAction_def choose_id_def generateActionId_def wrapActionWithControls_def
        debounce_def throttle_def Let_def split_def split: option.splits)

lemma foldl_addAction_ids_ok: "ids_ok w \<Longrightarrow> ids_ok (foldl (\<lambda>w' a. addAction a w') w as)"
  by (induction as arbitrary: w) (simp_all add: addAction_ids_ok)

lemma step_ids_ok: "ids_ok w \<Longrightarrow> ids_ok (step x w)"
proof (cases x)
  case (Configure cfg)
  assume "ids_ok w"
  moreover from this have "ids_ok (w\<lparr>config := Some cfg, currentState := state_cfg cfg\<rparr>)"
    by (simp add: ids_ok_def)
  ultimately show ?thesis using Configure by (simp add: configure_def foldl_addAction_ids_ok)
next
  case (UpdateState v)
  assume "ids_ok w"
  then show ?thesis using UpdateState by (simp add: updateState_ids_ok)
next
  case (AddAction a)
  assume "ids_ok w"
  then show ?thesis using AddAction by (simp add: addAction_ids_ok)
next
  case (RemoveAction k)
  assume "ids_ok w"
  then show ?thesis using RemoveAction by (simp add: removeAction_def ids_ok_def)
next
  case Destroy
  assume "ids_ok w"
  then show ?thesis using Destroy by (simp add: destroy_def ids_ok_def)
next
  case (Settle pid)
  assume "ids_ok w"
  then show ?thesis using Settle by (simp add: settle_ids_ok)
next
  case Tick
  assume "ids_ok w"
  then show ?thesis using Tick by (simp add: tick_ids_ok)
qed

lemma reachable_ids_ok: "ids_ok (run xs (new_engine rnd))"
proof -
  have "ids_ok w \<Longrightarrow> ids_ok (run xs w)" for w
    by (induction xs arbitrary: w) (simp_all add: step_ids_ok)
  moreover have "ids_ok (new_engine rnd)" by (simp add: ids_ok_def new_engine_def)
  ultimately show ?thesis by simp
qed

end
